theory Spec2Isabelle
  imports Main "HOL-Library.Sublist"
begin

section \<open>Strings and the built-in operations the handlers use\<close>

text \<open>
  A JavaScript string is modelled as a \<^typ>\<open>string\<close>, one \<^typ>\<open>char\<close> per code unit.
  Cursor offsets are JavaScript numbers holding integers, modelled as \<^typ>\<open>int\<close>; an
  argument that is not a number (\<open>undefined\<close>, \<open>null\<close>) is \<open>None\<close>.
\<close>

definition digit_chars :: string where
  "digit_chars = ''0123456789''"

definition hex_chars :: string where
  "hex_chars = ''0123456789abcdefABCDEF''"

text \<open>The character classes \<open>\d\<close>, \<open>[0-9a-fA-F]\<close>, \<open>[\d.]\<close> and \<open>[0-9a-fA-F:]\<close>.\<close>

definition is_digit_class :: "char \<Rightarrow> bool" where
  "is_digit_class c = (c \<in> set digit_chars)"

definition is_hex_class :: "char \<Rightarrow> bool" where
  "is_hex_class c = (c \<in> set hex_chars)"

definition is_digit_dot_class :: "char \<Rightarrow> bool" where
  "is_digit_dot_class c = (is_digit_class c \<or> c = CHR ''.'')"

definition is_hex_colon_class :: "char \<Rightarrow> bool" where
  "is_hex_colon_class c = (is_hex_class c \<or> c = CHR '':'')"

text \<open>\<open>String.prototype.slice(a, b)\<close>: negative offsets count from the end, both are clamped.\<close>

definition slice_index :: "nat \<Rightarrow> int \<Rightarrow> nat" where
  "slice_index len a = (if a < 0 then nat (max (int len + a) 0) else nat (min a (int len)))"

definition js_slice :: "string \<Rightarrow> int \<Rightarrow> int \<Rightarrow> string" where
  "js_slice s a b =
     (let from = slice_index (length s) a; to = slice_index (length s) b
      in take (to - from) (drop from s))"

definition js_slice_from :: "string \<Rightarrow> int \<Rightarrow> string" where
  "js_slice_from s a = drop (slice_index (length s) a) s"

text \<open>\<open>split(d)\<close> on a one-character separator: never empty, \<open>''''.split(d) = ['''']\<close>.\<close>

fun js_split :: "char \<Rightarrow> string \<Rightarrow> string list" where
  "js_split d [] = [[]]"
| "js_split d (c # cs) =
     (if c = d then [] # js_split d cs
      else (case js_split d cs of [] \<Rightarrow> [[c]] | s # ss \<Rightarrow> (c # s) # ss))"

text \<open>\<open>Array.prototype.join(d)\<close>.\<close>

fun js_join :: "char \<Rightarrow> string list \<Rightarrow> string" where
  "js_join d [] = []"
| "js_join d [s] = s"
| "js_join d (s # t # ss) = s @ d # js_join d (t # ss)"

text \<open>
  \<open>parseInt(s, 10)\<close> on a string of the cleaned input: the value of the leading decimal
  digits, \<open>NaN\<close> (here \<open>None\<close>) when there is none. The handlers only pass strings made of
  digits, so sign and leading white space do not occur.
\<close>

definition digit_value :: "char \<Rightarrow> nat" where
  "digit_value c = of_char c - 48"

definition dec_value :: "string \<Rightarrow> nat" where
  "dec_value s = foldl (\<lambda>n c. 10 * n + digit_value c) 0 s"

definition parseInt10 :: "string \<Rightarrow> nat option" where
  "parseInt10 s =
     (let ds = takeWhile is_digit_class s
      in if ds = [] then None else Some (dec_value ds))"

text \<open>\<open>indexOf(d, pos)\<close> and \<open>lastIndexOf(d, pos)\<close> for a one-character \<open>d\<close>; \<open>-1\<close> when absent.\<close>

fun first_index :: "char \<Rightarrow> string \<Rightarrow> int" where
  "first_index d [] = -1"
| "first_index d (c # cs) =
     (if c = d then 0 else (let r = first_index d cs in if r < 0 then -1 else r + 1))"

fun last_index :: "char \<Rightarrow> string \<Rightarrow> int" where
  "last_index d [] = -1"
| "last_index d (c # cs) =
     (let r = last_index d cs in if 0 \<le> r then r + 1 else if c = d then 0 else -1)"

definition js_indexOf :: "string \<Rightarrow> char \<Rightarrow> int \<Rightarrow> int" where
  "js_indexOf s d pos =
     (let start = nat (min (max pos 0) (int (length s)));
          r = first_index d (drop start s)
      in if r < 0 then -1 else r + int start)"

definition js_lastIndexOf :: "string \<Rightarrow> char \<Rightarrow> int \<Rightarrow> int" where
  "js_lastIndexOf s d pos =
     (if s = [] then -1
      else (let start = nat (min (max pos 0) (int (length s) - 1))
            in last_index d (take (start + 1) s)))"

definition js_endsWith :: "string \<Rightarrow> char \<Rightarrow> bool" where
  "js_endsWith s d = (case rev s of [] \<Rightarrow> False | c # _ \<Rightarrow> c = d)"

definition js_startsWith :: "string \<Rightarrow> char \<Rightarrow> bool" where
  "js_startsWith s d = (case s of [] \<Rightarrow> False | c # _ \<Rightarrow> c = d)"

text \<open>\<open>includes(sub)\<close>: \<open>sub\<close> occurs somewhere in the string.\<close>

fun js_includes :: "string \<Rightarrow> string \<Rightarrow> bool" where
  "js_includes [] sub = (sub = [])"
| "js_includes (c # cs) sub = (prefix sub (c # cs) \<or> js_includes cs sub)"

section \<open>Segment utilities and character classifiers\<close>

definition simulateInsert :: "string \<Rightarrow> string \<Rightarrow> int \<Rightarrow> int option \<Rightarrow> string" where
  "simulateInsert value char cursorPos selectionEnd =
     (let selEnd = (case selectionEnd of Some e \<Rightarrow> e | None \<Rightarrow> cursorPos)
      in js_slice value 0 cursorPos @ char @ js_slice_from value selEnd)"

definition getSegmentBounds :: "string \<Rightarrow> int \<Rightarrow> char \<Rightarrow> int \<times> int" where
  "getSegmentBounds value index delimiter =
     (let start = js_lastIndexOf value delimiter (index - 1) + 1;
          e = js_indexOf value delimiter index
      in (start, if e = -1 then int (length value) else e))"

definition getSegmentTextAt :: "string \<Rightarrow> int \<Rightarrow> char \<Rightarrow> string" where
  "getSegmentTextAt value index delimiter =
     (case getSegmentBounds value index delimiter of (start, e) \<Rightarrow> js_slice value start e)"

text \<open>\<open>countChar\<close>: the global regex \<open>\ch\<close> matches each occurrence of the character.\<close>

definition countChar :: "string \<Rightarrow> char \<Rightarrow> nat" where
  "countChar value ch = length (filter (\<lambda>c. c = ch) value)"

text \<open>The unanchored tests \<open>/[0-9a-fA-F]/.test(ch)\<close> and \<open>/\d/.test(ch)\<close> on a key name.\<close>

definition isHexChar :: "string \<Rightarrow> bool" where
  "isHexChar ch = list_ex is_hex_class ch"

definition isDigit :: "string \<Rightarrow> bool" where
  "isDigit ch = list_ex is_digit_class ch"

section \<open>Cursor recalculator\<close>

definition computeNewCursorPosition :: "string \<Rightarrow> string \<Rightarrow> int \<Rightarrow> int" where
  "computeNewCursorPosition oldValue newValue oldCursor =
     (if length newValue < length oldValue then min oldCursor (int (length newValue))
      else if length newValue > length oldValue
        then oldCursor + (int (length newValue) - int (length oldValue))
      else oldCursor)"

section \<open>Regular expressions of the validators\<close>

text \<open>
  The anchored patterns \<open>/^...$/\<close> of the three \<open>validate\<close> operations use character
  classes, concatenation, alternation, \<open>?\<close> and bounded repetition \<open>{m,n}\<close> only. The
  matcher returns, in the order a backtracking engine tries them, every rest of the
  input left after a match of a prefix; \<open>test\<close> succeeds when some rest is empty.
\<close>

datatype rx = Eps | Cls string | Cat rx rx | Alt rx rx

fun rx_match :: "rx \<Rightarrow> string \<Rightarrow> string list" where
  "rx_match Eps s = [s]"
| "rx_match (Cls cs) s = (case s of [] \<Rightarrow> [] | c # r \<Rightarrow> if c \<in> set cs then [r] else [])"
| "rx_match (Cat a b) s = concat (map (rx_match b) (rx_match a s))"
| "rx_match (Alt a b) s = rx_match a s @ rx_match b s"

definition rx_test :: "rx \<Rightarrow> string \<Rightarrow> bool" where
  "rx_test r s = ([] \<in> set (rx_match r s))"

text \<open>\<open>a?\<close>, \<open>a{n}\<close>, \<open>a{0,n}\<close> and \<open>a{m,n}\<close>, all greedy.\<close>

definition rx_opt :: "rx \<Rightarrow> rx" where
  "rx_opt a = Alt a Eps"

fun rx_times :: "nat \<Rightarrow> rx \<Rightarrow> rx" where
  "rx_times 0 a = Eps"
| "rx_times (Suc n) a = Cat a (rx_times n a)"

fun rx_upto :: "nat \<Rightarrow> rx \<Rightarrow> rx" where
  "rx_upto 0 a = Eps"
| "rx_upto (Suc n) a = rx_opt (Cat a (rx_upto n a))"

definition rx_rep :: "nat \<Rightarrow> nat \<Rightarrow> rx \<Rightarrow> rx" where
  "rx_rep m n a = Cat (rx_times m a) (rx_upto (n - m) a)"

definition rx_digit :: rx where
  "rx_digit = Cls digit_chars"

definition rx_hex :: rx where
  "rx_hex = Cls hex_chars"

definition rx_colon :: rx where
  "rx_colon = Cls '':''"

definition rx_dot :: rx where
  "rx_dot = Cls ''.''"

section \<open>IPv4 handler\<close>

text \<open>The per-segment cleanup of the loop body: truncate to three characters, clamp to 255.\<close>

definition ipv4_clean_segment :: "string \<Rightarrow> string" where
  "ipv4_clean_segment segment0 =
     (let segment = (if length segment0 > 3 then js_slice segment0 0 3 else segment0)
      in case parseInt10 segment of
           None \<Rightarrow> segment
         | Some num \<Rightarrow> if num > 255 then ''255'' else segment)"

text \<open>The inner test of the loop body that pushes an empty segment.\<close>

definition ipv4_complete :: "string \<Rightarrow> bool" where
  "ipv4_complete segment =
     (if length segment = 3 then True
      else length segment = 2 \<and>
           (case parseInt10 (segment @ ''0'') of None \<Rightarrow> False | Some n \<Rightarrow> n > 255))"

function ipv4_format_loop :: "string list \<Rightarrow> nat \<Rightarrow> string list \<Rightarrow> string list" where
  "ipv4_format_loop segments i validSegments =
     (if i < min (length segments) 4
      then (let segment = ipv4_clean_segment (segments ! i);
                pushed = validSegments @ [segment]
            in ipv4_format_loop segments (i + 1)
                 (if i < 3 \<and> int i = int (length segments) - 1 \<and> length segment > 0
                     \<and> ipv4_complete segment
                  then pushed @ [[]] else pushed))
      else validSegments)"
  by pat_completeness auto
termination
  by (relation "measure (\<lambda>(s, i, v). min (length s) 4 - i)") auto

declare ipv4_format_loop.simps [simp del]

text \<open>
  When the loop pushes an empty segment: at the last index, when it is below 3 and the
  cleaned segment is non-empty and complete.
\<close>

definition ipv4_extra :: "string list \<Rightarrow> bool" where
  "ipv4_extra segments =
     (length segments \<le> 3 \<and>
      (let segment = ipv4_clean_segment (segments ! (length segments - 1))
       in length segment > 0 \<and> ipv4_complete segment))"

definition ipv4_format :: "string \<Rightarrow> string" where
  "ipv4_format v =
     (let cleaned = filter is_digit_dot_class v;
          segments = js_split (CHR ''.'') cleaned
      in js_join (CHR ''.'') (ipv4_format_loop segments 0 []))"

text \<open>The octet pattern \<open>(25[0-5]|2[0-4]\d|[01]?\d\d?)\<close>.\<close>

definition rx_octet :: rx where
  "rx_octet =
     Alt (Cat (Cls ''2'') (Cat (Cls ''5'') (Cls ''012345'')))
      (Alt (Cat (Cls ''2'') (Cat (Cls ''01234'') rx_digit))
           (Cat (rx_opt (Cls ''01'')) (Cat rx_digit (rx_opt rx_digit))))"

definition ipv4Regex :: rx where
  "ipv4Regex =
     Cat rx_octet (Cat rx_dot (Cat rx_octet (Cat rx_dot (Cat rx_octet (Cat rx_dot rx_octet)))))"

definition ipv4_validate :: "string \<Rightarrow> bool" where
  "ipv4_validate v = rx_test ipv4Regex v"

section \<open>IPv6 handler\<close>

text \<open>
  \<open>replace(/:{3,}/g, '::')\<close>: scanning from the left, every maximal run of three or more
  colons is replaced by two; everything else is copied.
\<close>

function collapse_colons :: "string \<Rightarrow> string" where
  "collapse_colons [] = []"
| "collapse_colons (c # cs) =
     (if c = CHR '':'' \<and> 3 \<le> length (takeWhile (\<lambda>x. x = CHR '':'') (c # cs))
      then CHR '':'' # CHR '':'' # collapse_colons (dropWhile (\<lambda>x. x = CHR '':'') cs)
      else c # collapse_colons cs)"
  by pat_completeness auto
termination
  by (relation "measure length") (auto simp: length_dropWhile_le less_Suc_eq_le)

definition ipv6_format :: "string \<Rightarrow> string" where
  "ipv6_format v = collapse_colons (filter is_hex_colon_class v)"

text \<open>The groups \<open>[0-9a-fA-F]{1,4}\<close>, \<open>([0-9a-fA-F]{1,4}:)\<close> and \<open>(:[0-9a-fA-F]{1,4})\<close>.\<close>

definition rx_hextet :: rx where
  "rx_hextet = rx_rep 1 4 rx_hex"

definition rx_hc :: rx where
  "rx_hc = Cat rx_hextet rx_colon"

definition rx_ch :: rx where
  "rx_ch = Cat rx_colon rx_hextet"

definition ipv6Regex :: rx where
  "ipv6Regex =
     Alt (Cat (rx_rep 7 7 rx_hc) rx_hextet)
    (Alt (Cat (rx_rep 1 7 rx_hc) rx_colon)
    (Alt (Cat (rx_rep 1 6 rx_hc) (Cat rx_colon rx_hextet))
    (Alt (Cat (rx_rep 1 5 rx_hc) (rx_rep 1 2 rx_ch))
    (Alt (Cat (rx_rep 1 4 rx_hc) (rx_rep 1 3 rx_ch))
    (Alt (Cat (rx_rep 1 3 rx_hc) (rx_rep 1 4 rx_ch))
    (Alt (Cat (rx_rep 1 2 rx_hc) (rx_rep 1 5 rx_ch))
    (Alt (Cat rx_hextet (Cat rx_colon (rx_rep 1 6 rx_ch)))
    (Alt (Cat rx_colon (Alt (rx_rep 1 7 rx_ch) rx_colon))
         (Cat rx_colon rx_colon)))))))))"

definition ipv6_validate :: "string \<Rightarrow> bool" where
  "ipv6_validate v = rx_test ipv6Regex v"

text \<open>\<open>after.match(/::/g)\<close>: the number of non-overlapping matches, found left to right.\<close>

fun count_double_colon :: "string \<Rightarrow> nat" where
  "count_double_colon (a # b # r) =
     (if a = CHR '':'' \<and> b = CHR '':'' then Suc (count_double_colon r)
      else count_double_colon (b # r))"
| "count_double_colon r = 0"

definition ipv6_isValidChar :: "string \<Rightarrow> string \<Rightarrow> int \<Rightarrow> int option \<Rightarrow> bool" where
  "ipv6_isValidChar char currentValue cursorPos selectionEnd =
     (if \<not> list_ex is_hex_colon_class char then False
      else (let left = js_slice currentValue 0 cursorPos;
                right = js_slice_from currentValue cursorPos
            in if char = '':''
               then (let after = simulateInsert currentValue char cursorPos selectionEnd
                     in if js_includes after '':::'' then False
                        else if count_double_colon after > 1 then False
                        else (let hasDoubleColon = js_includes after ''::'';
                                  colonCount = countChar after (CHR '':'')
                              in if \<not> hasDoubleColon \<and> colonCount > 7 then False
                                 else (let isFormingDouble =
                                             (js_endsWith left (CHR '':'')
                                              \<or> js_startsWith right (CHR '':''));
                                           currentSeg =
                                             getSegmentTextAt currentValue cursorPos (CHR '':'')
                                       in if \<not> isFormingDouble \<and> length currentSeg = 0
                                          then False else True)))
               else if isHexChar char
               then (let after = simulateInsert currentValue char cursorPos selectionEnd;
                         newIndex = cursorPos + 1;
                         segAfter = getSegmentTextAt after newIndex (CHR '':'')
                     in if length segAfter > 4 then False else True)
               else False))"

section \<open>MAC handler\<close>

text \<open>The \<open>for (i = 0; i < hexOnly.length; i += 2)\<close> loop pushing \<open>hexOnly.slice(i, i + 2)\<close>.\<close>

function mac_pairs_loop :: "string \<Rightarrow> nat \<Rightarrow> string list \<Rightarrow> string list" where
  "mac_pairs_loop hexOnly i pairs =
     (if i < length hexOnly
      then mac_pairs_loop hexOnly (i + 2) (pairs @ [js_slice hexOnly (int i) (int i + 2)])
      else pairs)"
  by pat_completeness auto
termination
  by (relation "measure (\<lambda>(h, i, p). length h - i)") auto

declare mac_pairs_loop.simps [simp del]

definition mac_format :: "string \<Rightarrow> string" where
  "mac_format v =
     (let cleanedAll = filter is_hex_colon_class v;
          hasColon = (CHR '':'' \<in> set cleanedAll);
          rawSegments = map (filter is_hex_class) (take 6 (js_split (CHR '':'') cleanedAll))
      in if hasColon \<and> list_all (\<lambda>seg. length seg \<le> 2) rawSegments
         then js_join (CHR '':'') (map (\<lambda>seg. js_slice seg 0 2) rawSegments)
         else js_join (CHR '':'')
                (mac_pairs_loop (js_slice (filter is_hex_class v) 0 12) 0 []))"

text \<open>The pattern \<open>([0-9a-fA-F]{2}:){5}[0-9a-fA-F]{2}\<close>.\<close>

definition macRegex :: rx where
  "macRegex = Cat (rx_rep 5 5 (Cat (rx_rep 2 2 rx_hex) rx_colon)) (rx_rep 2 2 rx_hex)"

definition mac_validate :: "string \<Rightarrow> bool" where
  "mac_validate v = rx_test macRegex v"

definition mac_isValidChar :: "string \<Rightarrow> string \<Rightarrow> int \<Rightarrow> int option \<Rightarrow> bool" where
  "mac_isValidChar char currentValue cursorPos selectionEnd =
     (if \<not> list_ex is_hex_colon_class char then False
      else (let selEnd = (case selectionEnd of Some e \<Rightarrow> e | None \<Rightarrow> cursorPos);
                left = js_slice currentValue 0 cursorPos;
                right = js_slice_from currentValue selEnd
            in if char = '':''
               then (let currentSeg =
                           filter is_hex_class (getSegmentTextAt currentValue cursorPos (CHR '':''));
                         totalHex = length (filter is_hex_class currentValue);
                         colonCount = countChar currentValue (CHR '':'')
                     in if length currentSeg \<noteq> 2 then False
                        else if colonCount \<ge> 5 then False
                        else if totalHex \<ge> 12 then False
                        else if js_endsWith left (CHR '':'') \<or> js_startsWith right (CHR '':'')
                        then False
                        else True)
               else if isHexChar char
               then (let after = simulateInsert currentValue char cursorPos selectionEnd;
                         totalHexAfter = length (filter is_hex_class after)
                     in if totalHexAfter > 12 then False else True)
               else False))"

text \<open>Typing a string one character at a time, reformatting after every keystroke.\<close>

definition type_chars :: "(string \<Rightarrow> string) \<Rightarrow> string \<Rightarrow> string \<Rightarrow> string" where
  "type_chars fmt v cs = foldl (\<lambda>v c. fmt (v @ [c])) v cs"

section \<open>Vocabulary of the claims on character acceptance\<close>

text \<open>
  The claims on \<open>isValidChar\<close> speak of a selection \<open>c \<le> e \<le> length v\<close> in the value
  \<open>v\<close>, of the segment containing the caret (the maximal stretch without delimiter
  around offset \<open>c\<close>), and of the characters next to the selection. These definitions
  follow the wording of the specification, not the code.
\<close>

definition caret_segment :: "char \<Rightarrow> string \<Rightarrow> nat \<Rightarrow> string" where
  "caret_segment d v c =
     rev (takeWhile (\<lambda>x. x \<noteq> d) (rev (take c v))) @ takeWhile (\<lambda>x. x \<noteq> d) (drop c v)"

definition char_before :: "char \<Rightarrow> string \<Rightarrow> nat \<Rightarrow> bool" where
  "char_before d v c = (0 < c \<and> v ! (c - 1) = d)"

definition char_after :: "char \<Rightarrow> string \<Rightarrow> nat \<Rightarrow> bool" where
  "char_after d v e = (e < length v \<and> v ! e = d)"

definition after_insert :: "string \<Rightarrow> string \<Rightarrow> nat \<Rightarrow> nat \<Rightarrow> string" where
  "after_insert v ch c e = take c v @ ch @ drop e v"

text \<open>The number of places where \<open>sub\<close> occurs in \<open>s\<close>, overlapping ones included.\<close>

definition occurrences :: "string \<Rightarrow> string \<Rightarrow> nat" where
  "occurrences sub s = length (filter (prefix sub) (suffixes s))"

section \<open>The language of a pattern\<close>

text \<open>
  The set of strings a pattern matches in full, used to reason about \<open>rx_test\<close> for all
  inputs; \<open>rx_match\<close> is proved to compute exactly the rests left by its members.
\<close>

definition lang_cat :: "string set \<Rightarrow> string set \<Rightarrow> string set" where
  "lang_cat A B = {p @ q | p q. p \<in> A \<and> q \<in> B}"

fun lang :: "rx \<Rightarrow> string set" where
  "lang Eps = {[]}"
| "lang (Cls cs) = {[c] | c. c \<in> set cs}"
| "lang (Cat a b) = lang_cat (lang a) (lang b)"
| "lang (Alt a b) = lang a \<union> lang b"

text \<open>
  Reading colons left to right with the number \<open>k\<close> of colons just seen: true when the
  string never brings a run of colons to three.
\<close>

fun run3 :: "nat \<Rightarrow> string \<Rightarrow> bool" where
  "run3 k [] = True"
| "run3 k (c # cs) = (if c = CHR '':'' then k < 2 \<and> run3 (Suc k) cs else run3 0 cs)"

text \<open>
  An octet as text: one to three decimal digits reading at most 255. The second
  predicate is the reading of the specification that also excludes a leading zero
  before further digits.
\<close>

definition octet_text :: "string \<Rightarrow> bool" where
  "octet_text s =
     (1 \<le> length s \<and> length s \<le> 3 \<and> list_all is_digit_class s \<and> dec_value s \<le> 255)"

definition octet_text_strict :: "string \<Rightarrow> bool" where
  "octet_text_strict s = (octet_text s \<and> (length s = 1 \<or> take 1 s \<noteq> ''0''))"

definition dotted_quad :: "(string \<Rightarrow> bool) \<Rightarrow> string \<Rightarrow> bool" where
  "dotted_quad octet v =
     (length (js_split (CHR ''.'') v) = 4 \<and> list_all octet (js_split (CHR ''.'') v))"

text \<open>
  What a group \<open>hextet:\<close> and a group \<open>:hextet\<close> do to the reading of colons, whatever
  comes before and after them.
\<close>

definition hc_group :: "string \<Rightarrow> bool" where
  "hc_group p = ((\<forall>c\<in>set p. is_hex_colon_class c) \<and> (\<forall>k t. run3 k (p @ t) = run3 (Suc 0) t))"

definition ch_group :: "string \<Rightarrow> bool" where
  "ch_group p =
     ((\<forall>c\<in>set p. is_hex_colon_class c) \<and> (\<forall>k t. run3 k (p @ t) = (k < 2 \<and> run3 0 t)))"

definition hex_group :: "string \<Rightarrow> bool" where
  "hex_group p = (p \<noteq> [] \<and> (\<forall>c\<in>set p. is_hex_class c))"

text \<open>A group of the MAC pattern: two hex digits.\<close>

definition hex_pair :: "string \<Rightarrow> bool" where
  "hex_pair s = (length s = 2 \<and> (\<forall>c\<in>set s. is_hex_class c))"

text \<open>
  Whether the IPv4 \<open>format\<close> clamps a segment of the value: one of its first four
  segments, cut to three characters, reads more than 255.
\<close>

definition ipv4_clamps :: "string \<Rightarrow> bool" where
  "ipv4_clamps v =
     list_ex (\<lambda>s. case parseInt10 (take 3 s) of None \<Rightarrow> False | Some n \<Rightarrow> n > 255)
       (take 4 (js_split (CHR ''.'') (filter is_digit_dot_class v)))"

section \<open>Splitting and joining\<close>


lemma js_split_not_Nil [simp]: "js_split d s \<noteq> []"
  by (induction s) (auto split: list.splits)

lemma js_join_split: "js_join d (js_split d s) = s"
proof (induction s)
  case Nil
  then show ?case by simp
next
  case (Cons c cs)
  obtain x xs where sp: "js_split d cs = x # xs"
    by (cases "js_split d cs") auto
  show ?case
  proof (cases "c = d")
    case True
    with Cons sp show ?thesis by simp
  next
    case False
    with Cons sp show ?thesis by (cases xs) auto
  qed
qed

lemma js_split_no_delim: "d \<notin> set p \<Longrightarrow> js_split d p = [p]"
  by (induction p) auto

lemma js_split_append: "d \<notin> set p \<Longrightarrow> js_split d (p @ d # r) = p # js_split d r"
  by (induction p) auto

lemma js_join_Cons: "xs \<noteq> [] \<Longrightarrow> js_join d (x # xs) = x @ d # js_join d xs"
  by (cases xs) auto

lemma js_join_snoc: "xs \<noteq> [] \<Longrightarrow> js_join d (xs @ [y]) = js_join d xs @ d # y"
  by (induction d xs rule: js_join.induct) auto

lemma js_split_join:
  "xs \<noteq> [] \<Longrightarrow> \<forall>x\<in>set xs. d \<notin> set x \<Longrightarrow> js_split d (js_join d xs) = xs"
proof (induction d xs rule: js_join.induct)
  case (1 d)
  then show ?case by simp
next
  case (2 d s)
  then show ?case by (simp add: js_split_no_delim)
next
  case (3 d s t ss)
  then show ?case by (simp add: js_split_append)
qed

lemma js_split_chars: "x \<in> set (js_split d s) \<Longrightarrow> set x \<subseteq> set s - {d}"
proof (induction s arbitrary: x)
  case Nil
  then show ?case by simp
next
  case (Cons c cs)
  obtain y ys where sp: "js_split d cs = y # ys"
    by (cases "js_split d cs") auto
  show ?case
  proof (cases "c = d")
    case True
    with Cons sp show ?thesis by auto
  next
    case False
    with Cons.prems sp have "x = c # y \<or> x \<in> set ys" by auto
    then show ?thesis
    proof
      assume "x = c # y"
      moreover have "set y \<subseteq> set cs - {d}" using Cons.IH [of y] sp by simp
      ultimately show ?thesis using False by auto
    next
      assume "x \<in> set ys"
      then have "set x \<subseteq> set cs - {d}" using Cons.IH [of x] sp by simp
      then show ?thesis by auto
    qed
  qed
qed

lemma concat_js_split: "concat (js_split d s) = filter (\<lambda>c. c \<noteq> d) s"
proof (induction s)
  case Nil
  then show ?case by simp
next
  case (Cons c cs)
  then show ?case by (cases "js_split d cs") auto
qed

lemma length_js_split: "length (js_split d s) = Suc (countChar s d)"
proof (induction s)
  case Nil
  then show ?case by (simp add: countChar_def)
next
  case (Cons c cs)
  then show ?case by (cases "js_split d cs") (auto simp: countChar_def)
qed

lemma filter_js_join:
  "filter (\<lambda>c. c \<noteq> d) (js_join d xs) = concat (map (filter (\<lambda>c. c \<noteq> d)) xs)"
  by (induction d xs rule: js_join.induct) auto

lemma ipv4_format_loop_eq:
  "i \<le> min (length segments) 4 \<Longrightarrow>
   ipv4_format_loop segments i acc =
     acc @ map ipv4_clean_segment (drop i (take 4 segments))
         @ (if i < length segments \<and> ipv4_extra segments then [[]] else [])"
proof (induction segments i acc rule: ipv4_format_loop.induct)
  case (1 segments i validSegments)
  show ?case
  proof (cases "i < min (length segments) 4")
    case False
    with "1.prems" have "i = min (length segments) 4" by linarith
    then show ?thesis
      by (subst ipv4_format_loop.simps) (auto simp: ipv4_extra_def)
  next
    case True
    then have dr: "drop i (take 4 segments) = segments ! i # drop (Suc i) (take 4 segments)"
      by (metis Cons_nth_drop_Suc length_take nth_take min.commute less_imp_le_nat min_less_iff_conj)
    show ?thesis
    proof (cases "i < 3 \<and> int i = int (length segments) - 1")
      case last: True
      then have n: "length segments = Suc i" "length segments \<le> 3" by auto
      have nxt: "\<And>a. ipv4_format_loop segments (Suc i) a = a"
        by (subst ipv4_format_loop.simps) (simp add: n)
      show ?thesis
        by (subst ipv4_format_loop.simps) (use True last n nxt dr in \<open>auto simp: ipv4_extra_def Let_def\<close>)
    next
      case notlast: False
      have eq: "(Suc i < length segments \<and> ipv4_extra segments)
                = (i < length segments \<and> ipv4_extra segments)"
        using notlast True by (auto simp: ipv4_extra_def)
      have "ipv4_format_loop segments i validSegments
            = ipv4_format_loop segments (i + 1) (validSegments @ [ipv4_clean_segment (segments ! i)])"
        by (subst ipv4_format_loop.simps) (use True notlast in \<open>auto simp: Let_def\<close>)
      also have "\<dots> = (validSegments @ [ipv4_clean_segment (segments ! i)])
                  @ map ipv4_clean_segment (drop (i + 1) (take 4 segments))
                  @ (if i + 1 < length segments \<and> ipv4_extra segments then [[]] else [])"
        using "1.IH" [OF True refl refl] True notlast by (auto simp: Let_def)
      finally show ?thesis using dr eq by simp
    qed
  qed
qed

section \<open>Cursor recalculation\<close>

text \<open>
  Claim C8. The cursor recalculator returns \<open>min(oldCursor, len(newValue))\<close> when the new
  value is shorter than the old one, \<open>oldCursor + (len(newValue) - len(oldValue))\<close> when it
  is longer, and \<open>oldCursor\<close> when the lengths are equal; in particular the cursor 9 in
  \<open>192.168.1\<close> moves to 10 when the value becomes \<open>192.168.1.\<close>
\<close>

theorem computeNewCursorPosition_cases:
  "(length newValue < length oldValue \<longrightarrow>
      computeNewCursorPosition oldValue newValue oldCursor
        = min oldCursor (int (length newValue)))
   \<and> (length newValue > length oldValue \<longrightarrow>
      computeNewCursorPosition oldValue newValue oldCursor
        = oldCursor + (int (length newValue) - int (length oldValue)))
   \<and> (length newValue = length oldValue \<longrightarrow>
      computeNewCursorPosition oldValue newValue oldCursor = oldCursor)
   \<and> computeNewCursorPosition ''192.168.1'' ''192.168.1.'' 9 = 10"
  by (simp add: computeNewCursorPosition_def)

theorem computeNewCursorPosition_cases_witness:
  "computeNewCursorPosition ''1234'' ''123.'' 4 = 4
   \<and> computeNewCursorPosition ''12x4'' ''124'' 4 = 3
   \<and> computeNewCursorPosition ''192.168.1'' ''192.168.1.'' 9 = 10"
  using computeNewCursorPosition_cases [of "''123.''" "''1234''" 4]
    computeNewCursorPosition_cases [of "''124''" "''12x4''" 4]
    computeNewCursorPosition_cases [of "''192.168.1.''" "''192.168.1''" 9]
  by simp

section \<open>Typing a MAC address\<close>

text \<open>
  Claim C6. Starting from the empty string and applying the MAC \<open>format\<close> after each typed
  character of \<open>001A2B3C4D5E\<close> gives \<open>00:1A:2B:3C:4D:5E\<close>. The intermediate values show the
  two paths at work: a value without colon, or with a three-character segment, is
  re-chunked by the colon-free path, the others pass through the colon-aware path.
\<close>

theorem mac_typing_example:
  "type_chars mac_format [] ''001A2B3C4D5E'' = ''00:1A:2B:3C:4D:5E''
   \<and> map (type_chars mac_format [])
        [''0'', ''00'', ''001'', ''001A'', ''001A2'', ''001A2B'', ''001A2B3'', ''001A2B3C'',
         ''001A2B3C4'', ''001A2B3C4D'', ''001A2B3C4D5'']
     = [''0'', ''00'', ''00:1'', ''00:1A'', ''00:1A:2'', ''00:1A:2B'', ''00:1A:2B:3'',
        ''00:1A:2B:3C'', ''00:1A:2B:3C:4'', ''00:1A:2B:3C:4D'', ''00:1A:2B:3C:4D:5'']"
  by code_simp

section \<open>IPv6 format keeps two compression markers\<close>

text \<open>
  Claim C10. The IPv6 \<open>format\<close> does not enforce the rule of at most one \<open>::\<close>: the input
  \<open>1::2::3\<close> comes back unchanged, with both \<open>::\<close>, while a run of three colons is
  collapsed; so an output of \<open>format\<close> can be rejected by \<open>validate\<close>.
\<close>

theorem ipv6_format_keeps_two_markers:
  "ipv6_format ''1::2::3'' = ''1::2::3''
   \<and> count_double_colon (ipv6_format ''1::2::3'') = 2
   \<and> ipv6_format ''1:::2::3'' = ''1::2::3''
   \<and> \<not> ipv6_validate (ipv6_format ''1::2::3'')"
  by code_simp

section \<open>IPv4 format: the automatic dot\<close>

lemma js_slice_0: "0 \<le> n \<Longrightarrow> js_slice s 0 n = take (nat n) s"
  by (auto simp: js_slice_def slice_index_def Let_def min_def)

lemma parseInt10_digits:
  "s \<noteq> [] \<Longrightarrow> \<forall>c\<in>set s. is_digit_class c \<Longrightarrow> parseInt10 s = Some (dec_value s)"
proof -
  assume a: "s \<noteq> []" "\<forall>c\<in>set s. is_digit_class c"
  then have tw: "takeWhile is_digit_class s = s" by (simp add: takeWhile_eq_all_conv)
  show ?thesis unfolding parseInt10_def Let_def tw using a(1) by simp
qed

lemma parseInt10_Nil: "parseInt10 [] = None"
  by (simp add: parseInt10_def)

lemma ipv4_clean_segment_digits:
  assumes "\<forall>c\<in>set s. is_digit_class c"
  shows "\<forall>c\<in>set (ipv4_clean_segment s). is_digit_class c"
proof -
  have t: "\<forall>c\<in>set (take 3 s). is_digit_class c"
    using assms by (auto dest: in_set_takeD)
  have d: "\<forall>c\<in>set ''255''. is_digit_class c"
    by (simp add: is_digit_class_def digit_chars_def)
  show ?thesis
    using assms t d
    by (auto simp: ipv4_clean_segment_def js_slice_0 Let_def split: option.splits if_splits)
qed

lemma ipv4_segments_digits:
  "x \<in> set (js_split (CHR ''.'') (filter is_digit_dot_class v)) \<Longrightarrow> \<forall>c\<in>set x. is_digit_class c"
  using js_split_chars [of x "CHR ''.''" "filter is_digit_dot_class v"]
  by (auto simp: is_digit_dot_class_def)

lemma ipv4_complete_digits:
  assumes "\<forall>c\<in>set s. is_digit_class c"
  shows "ipv4_complete s = (length s = 3 \<or> length s = 2 \<and> 255 < dec_value (s @ ''0''))"
proof -
  have "\<forall>c\<in>set (s @ ''0''). is_digit_class c"
    using assms by (auto simp: is_digit_class_def digit_chars_def)
  then have "parseInt10 (s @ ''0'') = Some (dec_value (s @ ''0''))"
    by (intro parseInt10_digits) auto
  then show ?thesis by (auto simp: ipv4_complete_def)
qed

lemma ipv4_format_loop_all:
  "ipv4_format_loop segments 0 [] =
     map ipv4_clean_segment (take 4 segments)
       @ (if segments \<noteq> [] \<and> ipv4_extra segments then [[]] else [])"
  using ipv4_format_loop_eq [of 0 segments "[]"] by simp

text \<open>
  Claim C4. In the IPv4 \<open>format\<close>, after the per-segment cleanup (at most four segments,
  each truncated to three characters and clamped to \<open>255\<close>), an empty segment is pushed,
  which gives a trailing dot in the joined output, exactly when the last segment present
  has an index below 3 and is complete: its length is 3, or its length is 2 and the
  number read with a \<open>0\<close> appended exceeds 255. In every other case nothing is pushed.
\<close>

theorem ipv4_format_auto_dot:
  fixes v :: string
  defines "segments \<equiv> js_split (CHR ''.'') (filter is_digit_dot_class v)"
  defines "processed \<equiv> map ipv4_clean_segment (take 4 segments)"
  defines "lastSeg \<equiv> ipv4_clean_segment (last segments)"
  defines "appended \<equiv> (length segments - 1 < 3 \<and>
             (length lastSeg = 3 \<or> length lastSeg = 2 \<and> 255 < dec_value (lastSeg @ ''0'')))"
  shows "ipv4_format_loop segments 0 [] = (if appended then processed @ [[]] else processed)
         \<and> ipv4_format v = (if appended then js_join (CHR ''.'') processed @ ''.''
                            else js_join (CHR ''.'') processed)"
proof -
  have ne: "segments \<noteq> []" by (simp add: segments_def)
  then have lastin: "last segments \<in> set segments" by simp
  have "\<forall>c\<in>set (last segments). is_digit_class c"
    using ipv4_segments_digits [of "last segments" v] lastin by (simp add: segments_def)
  then have dg: "\<forall>c\<in>set lastSeg. is_digit_class c"
    unfolding lastSeg_def by (rule ipv4_clean_segment_digits)
  have lst: "segments ! (length segments - Suc 0) = last segments"
    using ne by (simp add: last_conv_nth)
  have len: "(length segments - 1 < 3) = (length segments \<le> 3)"
    using ne by (cases segments) auto
  have "ipv4_extra segments = (length segments \<le> 3 \<and> length lastSeg > 0 \<and> ipv4_complete lastSeg)"
    by (simp add: ipv4_extra_def lst lastSeg_def Let_def)
  then have ex: "ipv4_extra segments = appended"
    unfolding appended_def len ipv4_complete_digits [OF dg] by auto
  have loop: "ipv4_format_loop segments 0 [] = (if appended then processed @ [[]] else processed)"
    using ne ex by (simp add: ipv4_format_loop_all processed_def)
  have pne: "processed \<noteq> []" using ne by (simp add: processed_def)
  have "ipv4_format v = js_join (CHR ''.'') (ipv4_format_loop segments 0 [])"
    by (simp add: ipv4_format_def segments_def)
  with loop pne show ?thesis by (simp add: js_join_snoc)
qed

theorem ipv4_format_auto_dot_witness:
  "ipv4_format ''1.26'' = ''1.26.'' \<and> ipv4_format ''1.25'' = ''1.25''
   \<and> ipv4_format ''1.2.3.123'' = ''1.2.3.123'' \<and> ipv4_format ''1234'' = ''123.''"
  using ipv4_format_auto_dot [of "''1.26''"] ipv4_format_auto_dot [of "''1.25''"]
   ipv4_format_auto_dot [of "''1.2.3.123''"]  ipv4_format_auto_dot [of "''1234''"]
  by (simp add: is_digit_dot_class_def is_digit_class_def digit_chars_def ipv4_clean_segment_def parseInt10_def dec_value_def digit_value_def js_slice_def slice_index_def)

section \<open>Slices and the segment at the caret\<close>

lemma js_slice_0_nat: "js_slice s 0 (int n) = take n s"
  by (simp add: js_slice_0)

lemma js_slice_from_nat: "js_slice_from s (int n) = drop n s"
  by (auto simp: js_slice_from_def slice_index_def min_def)

lemma slice_index_nat: "slice_index len (int n) = min n len"
  by (auto simp: slice_index_def min_def)

lemma js_slice_nat: "js_slice s (int a) (int b) = take (b - a) (drop a s)"
proof -
  have "take (min b (length s) - min a (length s)) (drop (min a (length s)) s)
        = take (b - a) (drop a s)"
    by (cases "a \<le> length s"; cases "b \<le> length s") (auto simp: min_def)
  then show ?thesis
    by (simp only: js_slice_def slice_index_nat Let_def)
qed

lemma js_endsWith_take:
  "c \<le> length v \<Longrightarrow> js_endsWith (take c v) d = char_before d v c"
proof (cases c)
  case 0
  then show ?thesis by (simp add: js_endsWith_def char_before_def)
next
  case (Suc k)
  assume "c \<le> length v"
  with Suc have k: "k < length v" by simp
  then have "take (Suc k) v = take k v @ [v ! k]" by (simp add: take_Suc_conv_app_nth)
  with Suc show ?thesis by (simp add: js_endsWith_def char_before_def)
qed

lemma js_startsWith_drop: "js_startsWith (drop e v) d = char_after d v e"
proof (cases "e < length v")
  case True
  then have "drop e v = v ! e # drop (Suc e) v" by (simp add: Cons_nth_drop_Suc)
  with True show ?thesis by (simp add: js_startsWith_def char_after_def)
next
  case False
  then show ?thesis by (simp add: js_startsWith_def char_after_def)
qed

lemma first_index_takeWhile:
  "(if first_index d s < 0 then int (length s) else first_index d s)
     = int (length (takeWhile (\<lambda>x. x \<noteq> d) s))"
  "first_index d s \<ge> -1"
  by (induction s) (auto simp: Let_def)

lemma last_index_snoc:
  "last_index d (s @ [c]) = (if c = d then int (length s) else last_index d s)"
  "last_index d s < int (length s)"
  by (induction s) (auto simp: Let_def)

lemma last_index_takeWhile:
  "last_index d s + 1 = int (length s) - int (length (takeWhile (\<lambda>x. x \<noteq> d) (rev s)))"
proof (induction s rule: rev_induct)
  case Nil
  then show ?case by simp
next
  case (snoc c s)
  then show ?case by (auto simp: last_index_snoc)
qed

lemma rev_takeWhile_rev:
  "rev (takeWhile P (rev xs)) = drop (length xs - length (takeWhile P (rev xs))) xs"
proof -
  have "takeWhile P (rev xs) = take (length (takeWhile P (rev xs))) (rev xs)"
    by (simp add: takeWhile_eq_take [symmetric])
  then have "rev (takeWhile P (rev xs)) = rev (take (length (takeWhile P (rev xs))) (rev xs))"
    by simp
  also have "\<dots> = drop (length xs - length (takeWhile P (rev xs))) xs"
    by (simp add: rev_take)
  finally show ?thesis .
qed

lemma getSegmentTextAt_caret:
  assumes "c \<le> length v"
  shows "getSegmentTextAt v (int c) d = caret_segment d v c"
proof (cases c)
  case 0
  show ?thesis
  proof (cases v)
    case Nil
    with 0 show ?thesis
      by (simp add: getSegmentTextAt_def getSegmentBounds_def js_lastIndexOf_def js_indexOf_def
          caret_segment_def js_slice_def slice_index_def)
  next
    case (Cons x xs)
    show ?thesis
    proof (cases "x = d")
      case True
      with 0 Cons show ?thesis
        by (simp add: getSegmentTextAt_def getSegmentBounds_def js_lastIndexOf_def js_indexOf_def
            caret_segment_def js_slice_def slice_index_def)
    next
      case False
      let ?b = "length (takeWhile (\<lambda>x. x \<noteq> d) v)"
      have la: "js_lastIndexOf v d (int c - 1) + 1 = 0"
        using 0 Cons False by (simp add: js_lastIndexOf_def)
      have fi: "(let e = js_indexOf v d (int c) in if e = -1 then int (length v) else e) = int ?b"
        using first_index_takeWhile [of d v] 0
        by (auto simp: js_indexOf_def Let_def split: if_splits)
      have "getSegmentTextAt v (int c) d = js_slice v 0 (int ?b)"
        using la fi by (simp add: getSegmentTextAt_def getSegmentBounds_def Let_def)
      also have "\<dots> = takeWhile (\<lambda>x. x \<noteq> d) v"
        by (simp add: js_slice_0_nat takeWhile_eq_take [symmetric])
      finally show ?thesis using 0 by (simp add: caret_segment_def)
    qed
  qed
next
  case (Suc k)
  let ?a = "length (takeWhile (\<lambda>x. x \<noteq> d) (rev (take c v)))"
  let ?b = "length (takeWhile (\<lambda>x. x \<noteq> d) (drop c v))"
  have vne: "v \<noteq> []" using Suc assms by auto
  have ac: "?a \<le> c"
    by (metis length_takeWhile_le length_rev length_take min.cobounded2 le_trans)
  have "nat (min (max (int c - 1) 0) (int (length v) - 1)) = k"
    using Suc assms by auto
  then have "js_lastIndexOf v d (int c - 1) = last_index d (take c v)"
    using vne Suc by (simp only: js_lastIndexOf_def Let_def if_False Suc_eq_plus1)
  then have la: "js_lastIndexOf v d (int c - 1) + 1 = int (c - ?a)"
    using last_index_takeWhile [of d "take c v"] assms ac by (simp add: min_def)
  have st: "nat (min (max (int c) 0) (int (length v))) = c"
    using assms by auto
  have fi: "(let e = js_indexOf v d (int c) in if e = -1 then int (length v) else e) = int (c + ?b)"
    using first_index_takeWhile [of d "drop c v"] assms
    unfolding js_indexOf_def Let_def st
    by (auto split: if_splits)
  have "getSegmentTextAt v (int c) d = js_slice v (int (c - ?a)) (int (c + ?b))"
    using la fi by (simp add: getSegmentTextAt_def getSegmentBounds_def Let_def)
  also have "\<dots> = take (?a + ?b) (drop (c - ?a) v)"
  proof -
    have "c + ?b - (c - ?a) = ?a + ?b" using ac by simp
    then show ?thesis by (simp only: js_slice_nat)
  qed
  also have "\<dots> = take ?a (drop (c - ?a) v) @ take ?b (drop c v)"
    using ac by (simp add: take_add)
  also have "take ?a (drop (c - ?a) v) = drop (c - ?a) (take c v)"
    using ac by (simp add: drop_take)
  also have "drop (c - ?a) (take c v) = rev (takeWhile (\<lambda>x. x \<noteq> d) (rev (take c v)))"
    using rev_takeWhile_rev [of "\<lambda>x. x \<noteq> d" "take c v"] assms by (simp add: min_def)
  also have "take ?b (drop c v) = takeWhile (\<lambda>x. x \<noteq> d) (drop c v)"
    by (simp add: takeWhile_eq_take [symmetric])
  finally show ?thesis by (simp add: caret_segment_def)
qed

section \<open>MAC: accepting a colon\<close>

lemma countChar_count_list: "countChar v d = count_list v d"
  by (induction v) (auto simp: countChar_def)

lemma colon_is_hex_colon: "list_ex is_hex_colon_class '':''"
  by (simp add: is_hex_colon_class_def)

text \<open>
  Claim C7. For a caret or selection in the current value, MAC \<open>isValidChar\<close> accepts a
  colon exactly when the segment containing the caret has exactly two hex characters,
  fewer than five colons are present, fewer than twelve hex digits are present, and
  neither the character before the caret nor the one after the selection is a colon;
  the same holds when no selection end is passed. In particular a colon is accepted
  at the end of \<open>00\<close>.
\<close>

theorem mac_isValidChar_colon:
  assumes "c \<le> length v"
  shows "mac_isValidChar '':'' v (int c) (Some (int e))
         = (length (filter is_hex_class (caret_segment (CHR '':'') v c)) = 2
            \<and> count_list v (CHR '':'') < 5
            \<and> length (filter is_hex_class v) < 12
            \<and> \<not> char_before (CHR '':'') v c
            \<and> \<not> char_after (CHR '':'') v e)
         \<and> mac_isValidChar '':'' v (int c) None
         = (length (filter is_hex_class (caret_segment (CHR '':'') v c)) = 2
            \<and> count_list v (CHR '':'') < 5
            \<and> length (filter is_hex_class v) < 12
            \<and> \<not> char_before (CHR '':'') v c
            \<and> \<not> char_after (CHR '':'') v c)
         \<and> mac_isValidChar '':'' ''00'' 2 (Some 2)"
proof -
  have c: "c \<le> length v" using assms .
  have seg: "getSegmentTextAt v (int c) (CHR '':'') = caret_segment (CHR '':'') v c"
    using c by (rule getSegmentTextAt_caret)
  have l: "js_endsWith (js_slice v 0 (int c)) (CHR '':'') = char_before (CHR '':'') v c"
    using c by (simp add: js_slice_0_nat js_endsWith_take)
  have r: "\<And>k. js_startsWith (js_slice_from v (int k)) (CHR '':'') = char_after (CHR '':'') v k"
    by (simp add: js_slice_from_nat js_startsWith_drop)
  have 1: "mac_isValidChar '':'' v (int c) (Some (int e))
         = (length (filter is_hex_class (caret_segment (CHR '':'') v c)) = 2
            \<and> count_list v (CHR '':'') < 5
            \<and> length (filter is_hex_class v) < 12
            \<and> \<not> char_before (CHR '':'') v c
            \<and> \<not> char_after (CHR '':'') v e)"
    using colon_is_hex_colon
    by (auto simp: mac_isValidChar_def Let_def seg l r countChar_count_list)
  have 2: "mac_isValidChar '':'' v (int c) None
         = (length (filter is_hex_class (caret_segment (CHR '':'') v c)) = 2
            \<and> count_list v (CHR '':'') < 5
            \<and> length (filter is_hex_class v) < 12
            \<and> \<not> char_before (CHR '':'') v c
            \<and> \<not> char_after (CHR '':'') v c)"
    using colon_is_hex_colon
    by (auto simp: mac_isValidChar_def Let_def seg l r countChar_count_list)
  have 3: "mac_isValidChar '':'' ''00'' 2 (Some 2)"
    by code_simp
  from 1 2 3 show ?thesis by blast
qed

theorem mac_isValidChar_colon_witness:
  "mac_isValidChar '':'' ''00:1A'' 5 (Some 5) \<and> \<not> mac_isValidChar '':'' ''00:1'' 4 None
   \<and> \<not> mac_isValidChar '':'' ''00:1A'' 2 (Some 2)"
  using mac_isValidChar_colon [of 5 "''00:1A''" 5] mac_isValidChar_colon [of 4 "''00:1''" 4]
    mac_isValidChar_colon [of 2 "''00:1A''" 2]
  by (simp add: caret_segment_def char_before_def char_after_def is_hex_class_def hex_chars_def)

section \<open>IPv6: accepting a colon\<close>

lemma js_includes_sublist: "js_includes s sub = sublist sub s"
  by (induction s) (auto simp: sublist_Cons_right)

lemma occurrences_Cons:
  "occurrences sub (c # s) = (if prefix sub (c # s) then Suc (occurrences sub s) else occurrences sub s)"
  by (simp add: occurrences_def)

lemma occurrences_Nil: "occurrences (x # xs) [] = 0"
  by (simp add: occurrences_def)

lemma occurrences_one: "occurrences (x # y # xs) [c] = 0"
  by (simp add: occurrences_def)

lemma count_double_colon_occurrences:
  "\<not> sublist '':::'' s \<Longrightarrow> count_double_colon s = occurrences ''::'' s"
proof (induction s rule: count_double_colon.induct)
  case (1 a b r)
  show ?case
  proof (cases "a = CHR '':'' \<and> b = CHR '':''")
    case True
    have nr: "\<not> sublist '':::'' r" using 1(3) by (auto simp: sublist_Cons_right)
    have "\<not> prefix ''::'' (b # r)"
      using 1(3) True by (cases r) (auto simp: sublist_Cons_right)
    then show ?thesis using True 1(1) nr
      by (simp add: occurrences_Cons)
  next
    case False
    have nr: "\<not> sublist '':::'' (b # r)" using 1(3) by (auto simp: sublist_Cons_right)
    show ?thesis using False 1(2) nr by (auto simp: occurrences_Cons)
  qed
qed (simp_all add: occurrences_Nil occurrences_one)

lemma occurrences_run3: "sublist '':::'' s \<Longrightarrow> 2 \<le> occurrences ''::'' s"
proof (induction s)
  case Nil
  then show ?case by simp
next
  case (Cons c s)
  show ?case
  proof (cases "prefix '':::'' (c # s)")
    case True
    then obtain r where "c # s = '':::'' @ r" by (auto simp: prefix_def)
    then show ?thesis by (auto simp: occurrences_Cons)
  next
    case False
    with Cons.prems have "sublist '':::'' s" unfolding sublist_Cons_right by blast
    then have "2 \<le> occurrences ''::'' s" by (rule Cons.IH)
    moreover have "occurrences ''::'' s \<le> occurrences ''::'' (c # s)"
      unfolding occurrences_Cons by simp
    ultimately show ?thesis by linarith
  qed
qed

lemma ipv6_colon_after:
  "simulateInsert v '':'' (int c) (Some (int e)) = after_insert v '':'' c e"
  "simulateInsert v '':'' (int c) None = after_insert v '':'' c c"
  by (simp_all add: simulateInsert_def after_insert_def js_slice_0_nat js_slice_from_nat)

lemma ipv6_isValidChar_colon_aux:
  assumes "c \<le> length v"
    and "simulateInsert v '':'' (int c) sel = after"
  shows "ipv6_isValidChar '':'' v (int c) sel
         = (\<not> (sublist '':::'' after
               \<or> 2 \<le> occurrences ''::'' after
               \<or> (\<not> sublist ''::'' after \<and> 7 < count_list after (CHR '':''))
               \<or> (\<not> char_before (CHR '':'') v c \<and> \<not> char_after (CHR '':'') v c
                   \<and> caret_segment (CHR '':'') v c = [])))"
proof -
  have seg: "getSegmentTextAt v (int c) (CHR '':'') = caret_segment (CHR '':'') v c"
    using assms(1) by (rule getSegmentTextAt_caret)
  have l: "js_endsWith (js_slice v 0 (int c)) (CHR '':'') = char_before (CHR '':'') v c"
    using assms(1) by (simp add: js_slice_0_nat js_endsWith_take)
  have r: "js_startsWith (js_slice_from v (int c)) (CHR '':'') = char_after (CHR '':'') v c"
    by (simp add: js_slice_from_nat js_startsWith_drop)
  have code: "ipv6_isValidChar '':'' v (int c) sel
      = (\<not> (sublist '':::'' after
            \<or> 1 < count_double_colon after
            \<or> (\<not> sublist ''::'' after \<and> 7 < count_list after (CHR '':''))
            \<or> (\<not> char_before (CHR '':'') v c \<and> \<not> char_after (CHR '':'') v c
                \<and> caret_segment (CHR '':'') v c = [])))"
    using colon_is_hex_colon
    by (auto simp: ipv6_isValidChar_def Let_def assms(2) seg l r countChar_count_list
        js_includes_sublist)
  have "(sublist '':::'' after \<or> 1 < count_double_colon after)
        = (sublist '':::'' after \<or> 2 \<le> occurrences ''::'' after)"
  proof (cases "sublist '':::'' after")
    case True
    then show ?thesis by simp
  next
    case False
    then have "count_double_colon after = occurrences ''::'' after"
      by (rule count_double_colon_occurrences)
    then show ?thesis by auto
  qed
  with code show ?thesis by blast
qed

text \<open>
  Claim C5. For a caret or selection in the current value, IPv6 \<open>isValidChar\<close> rejects a
  colon exactly when the value after the simulated insertion contains a run of three
  colons, or contains \<open>::\<close> at two places, or contains no \<open>::\<close> and more than seven
  colons, or when neither the character before the caret nor the one after it is a
  colon and the segment containing the caret is empty. In all other cases the colon is
  accepted. The same holds when no selection end is passed.
\<close>

theorem ipv6_isValidChar_colon:
  assumes "c \<le> length v"
  shows "ipv6_isValidChar '':'' v (int c) (Some (int e))
         = (\<not> (sublist '':::'' (after_insert v '':'' c e)
               \<or> 2 \<le> occurrences ''::'' (after_insert v '':'' c e)
               \<or> (\<not> sublist ''::'' (after_insert v '':'' c e)
                   \<and> 7 < count_list (after_insert v '':'' c e) (CHR '':''))
               \<or> (\<not> char_before (CHR '':'') v c \<and> \<not> char_after (CHR '':'') v c
                   \<and> caret_segment (CHR '':'') v c = [])))
         \<and> ipv6_isValidChar '':'' v (int c) None
         = (\<not> (sublist '':::'' (after_insert v '':'' c c)
               \<or> 2 \<le> occurrences ''::'' (after_insert v '':'' c c)
               \<or> (\<not> sublist ''::'' (after_insert v '':'' c c)
                   \<and> 7 < count_list (after_insert v '':'' c c) (CHR '':''))
               \<or> (\<not> char_before (CHR '':'') v c \<and> \<not> char_after (CHR '':'') v c
                   \<and> caret_segment (CHR '':'') v c = [])))"
  using ipv6_isValidChar_colon_aux [OF assms ipv6_colon_after(1)]
    ipv6_isValidChar_colon_aux [OF assms ipv6_colon_after(2)]
  by (rule conjI)

theorem ipv6_isValidChar_colon_witness:
  "\<not> ipv6_isValidChar '':'' ''1::2'' 2 (Some 2) \<and> ipv6_isValidChar '':'' ''1:2'' 2 (Some 2)
   \<and> \<not> ipv6_isValidChar '':'' ''1::2:3'' 5 (Some 5) \<and> \<not> ipv6_isValidChar '':'' [] 0 (Some 0)
   \<and> \<not> ipv6_isValidChar '':'' ''1:2:3:4:5:6:7:8'' 15 (Some 15)"
  using ipv6_isValidChar_colon [of 2 "''1::2''" 2] ipv6_isValidChar_colon [of 2 "''1:2''" 2]
    ipv6_isValidChar_colon [of 5 "''1::2:3''" 5] ipv6_isValidChar_colon [of 0 "[]" 0]
    ipv6_isValidChar_colon [of 15 "''1:2:3:4:5:6:7:8''" 15]
  by (simp add: after_insert_def occurrences_def sublist_Cons_right caret_segment_def
      char_before_def char_after_def)

section \<open>Patterns and their languages\<close>

lemma rx_match_lang: "set (rx_match r s) = {t. \<exists>p\<in>lang r. s = p @ t}"
proof (induction r arbitrary: s)
  case Eps
  then show ?case by auto
next
  case (Cls cs)
  then show ?case by (cases s) auto
next
  case (Cat a b)
  have m: "set (rx_match (Cat a b) s) = (\<Union>u\<in>set (rx_match a s). set (rx_match b u))"
    by simp
  show ?case
  proof (intro set_eqI iffI)
    fix t
    assume "t \<in> set (rx_match (Cat a b) s)"
    then obtain u where u: "u \<in> set (rx_match a s)" "t \<in> set (rx_match b u)"
      unfolding m by blast
    from u(1) obtain p where p: "p \<in> lang a" "s = p @ u" unfolding Cat.IH by blast
    from u(2) obtain q where q: "q \<in> lang b" "u = q @ t" unfolding Cat.IH by blast
    have "p @ q \<in> lang (Cat a b)" using p(1) q(1) by (auto simp: lang_cat_def)
    moreover have "s = (p @ q) @ t" using p(2) q(2) by simp
    ultimately show "t \<in> {t. \<exists>w\<in>lang (Cat a b). s = w @ t}" by blast
  next
    fix t
    assume "t \<in> {t. \<exists>w\<in>lang (Cat a b). s = w @ t}"
    then obtain p q where pq: "p \<in> lang a" "q \<in> lang b" "s = (p @ q) @ t"
      by (auto simp: lang_cat_def)
    have "q @ t \<in> set (rx_match a s)" unfolding Cat.IH using pq(1,3) by auto
    moreover have "t \<in> set (rx_match b (q @ t))" unfolding Cat.IH using pq(2) by auto
    ultimately show "t \<in> set (rx_match (Cat a b) s)" unfolding m by blast
  qed
next
  case (Alt a b)
  then show ?case by auto
qed

lemma rx_test_lang: "rx_test r s \<longleftrightarrow> s \<in> lang r"
  by (simp add: rx_test_def rx_match_lang)

lemma lang_catI: "p \<in> A \<Longrightarrow> q \<in> B \<Longrightarrow> p @ q \<in> lang_cat A B"
  by (auto simp: lang_cat_def)

lemma lang_catE: "w \<in> lang_cat A B \<Longrightarrow> (\<And>p q. w = p @ q \<Longrightarrow> p \<in> A \<Longrightarrow> q \<in> B \<Longrightarrow> R) \<Longrightarrow> R"
  by (auto simp: lang_cat_def)

lemma lang_opt: "lang (rx_opt a) = insert [] (lang a)"
  by (auto simp: rx_opt_def)

lemma lang_Cls_iff: "w \<in> lang (Cls cs) \<longleftrightarrow> (\<exists>c. w = [c] \<and> c \<in> set cs)"
  by auto

text \<open>A property closed under concatenation passes from a group to its repetitions.\<close>

lemma lang_upto_closed:
  assumes "\<And>p. p \<in> lang a \<Longrightarrow> Q p" and "\<And>p q. Q p \<Longrightarrow> Q q \<Longrightarrow> Q (p @ q)"
  shows "p \<in> lang (rx_upto n a) \<Longrightarrow> p = [] \<or> Q p"
proof (induction n arbitrary: p)
  case 0
  then show ?case by simp
next
  case (Suc n)
  from Suc.prems have "p = [] \<or> p \<in> lang_cat (lang a) (lang (rx_upto n a))"
    by (simp add: lang_opt)
  then show ?case
  proof
    assume "p = []"
    then show ?thesis by simp
  next
    assume "p \<in> lang_cat (lang a) (lang (rx_upto n a))"
    then obtain x y where xy: "p = x @ y" "x \<in> lang a" "y \<in> lang (rx_upto n a)"
      by (rule lang_catE)
    then have "Q x" and "y = [] \<or> Q y" using assms(1) Suc.IH by auto
    with xy(1) assms(2) show ?thesis by auto
  qed
qed

lemma lang_times_closed:
  assumes "\<And>p. p \<in> lang a \<Longrightarrow> Q p" and "\<And>p q. Q p \<Longrightarrow> Q q \<Longrightarrow> Q (p @ q)"
  shows "p \<in> lang (rx_times (Suc m) a) \<Longrightarrow> Q p"
proof (induction m arbitrary: p)
  case 0
  then show ?case using assms(1) by (auto simp: lang_cat_def)
next
  case (Suc m)
  from Suc.prems obtain x y where xy: "p = x @ y" "x \<in> lang a" "y \<in> lang (rx_times (Suc m) a)"
    by (auto elim: lang_catE)
  then show ?case using assms Suc.IH by auto
qed

lemma lang_rep_closed:
  assumes "\<And>p. p \<in> lang a \<Longrightarrow> Q p" and "\<And>p q. Q p \<Longrightarrow> Q q \<Longrightarrow> Q (p @ q)"
    and "0 < m" and "p \<in> lang (rx_rep m n a)"
  shows "Q p"
proof -
  obtain k where m: "m = Suc k" using assms(3) by (cases m) auto
  from assms(4) obtain x y where xy: "p = x @ y" "x \<in> lang (rx_times (Suc k) a)"
      "y \<in> lang (rx_upto (n - m) a)"
    unfolding rx_rep_def m by (auto elim: lang_catE)
  have "Q x" using assms(1,2) xy(2)
    by (rule lang_times_closed [where a = a and Q = Q])
  moreover have "y = [] \<or> Q y" using assms(1,2) xy(3)
    by (rule lang_upto_closed [where a = a and Q = Q])
  ultimately show ?thesis using xy(1) assms(2) by auto
qed

section \<open>IPv4 validation\<close>

lemma digit_value_le9: "is_digit_class c \<Longrightarrow> digit_value c \<le> 9"
  by (auto simp: is_digit_class_def digit_chars_def digit_value_def)

lemma digit_value_cases:
  assumes "is_digit_class c"
  shows "(digit_value c \<le> 1 \<longrightarrow> c \<in> set ''01'')
         \<and> (digit_value c = 2 \<longrightarrow> c = CHR ''2'')
         \<and> (digit_value c \<le> 4 \<longrightarrow> c \<in> set ''01234'')
         \<and> (digit_value c = 5 \<longrightarrow> c = CHR ''5'')
         \<and> (digit_value c \<le> 5 \<longrightarrow> c \<in> set ''012345'')"
  using assms by (auto simp: is_digit_class_def digit_chars_def digit_value_def)

lemma digit_subclasses:
  "c \<in> set ''01'' \<Longrightarrow> is_digit_class c \<and> digit_value c \<le> 1"
  "c \<in> set ''01234'' \<Longrightarrow> is_digit_class c \<and> digit_value c \<le> 4"
  "c \<in> set ''012345'' \<Longrightarrow> is_digit_class c \<and> digit_value c \<le> 5"
  "is_digit_class (CHR ''2'') \<and> digit_value (CHR ''2'') = 2"
  "is_digit_class (CHR ''5'') \<and> digit_value (CHR ''5'') = 5"
  by (auto simp: is_digit_class_def digit_chars_def digit_value_def)

lemma dec_value_simps:
  "dec_value [a] = digit_value a"
  "dec_value [a, b] = 10 * digit_value a + digit_value b"
  "dec_value [a, b, c] = 100 * digit_value a + 10 * digit_value b + digit_value c"
  by (simp_all add: dec_value_def)

lemma lang_Cls: "w \<in> lang (Cls cs) \<longleftrightarrow> (\<exists>c. w = [c] \<and> c \<in> set cs)"
  by auto

lemma lang_Cat_Cls:
  "w \<in> lang (Cat (Cls cs) b) \<longleftrightarrow> (\<exists>c r. w = c # r \<and> c \<in> set cs \<and> r \<in> lang b)"
proof
  assume "w \<in> lang (Cat (Cls cs) b)"
  then have "w \<in> lang_cat (lang (Cls cs)) (lang b)" by (simp only: lang.simps)
  then obtain p q where "w = p @ q" "p \<in> lang (Cls cs)" "q \<in> lang b"
    by (rule lang_catE)
  then show "\<exists>c r. w = c # r \<and> c \<in> set cs \<and> r \<in> lang b" by auto
next
  assume "\<exists>c r. w = c # r \<and> c \<in> set cs \<and> r \<in> lang b"
  then obtain c r where w: "w = c # r" "c \<in> set cs" "r \<in> lang b" by blast
  have "[c] \<in> lang (Cls cs)" using w(2) by simp
  then have "[c] @ r \<in> lang_cat (lang (Cls cs)) (lang b)" using w(3) by (rule lang_catI)
  then show "w \<in> lang (Cat (Cls cs) b)" using w(1) by simp
qed

lemma lang_opt_Cls: "w \<in> lang (rx_opt (Cls cs)) \<longleftrightarrow> w = [] \<or> (\<exists>c. w = [c] \<and> c \<in> set cs)"
  by (auto simp: lang_opt)

lemma lang_Cat_opt:
  "w \<in> lang (Cat (rx_opt a) b) \<longleftrightarrow> w \<in> lang b \<or> w \<in> lang (Cat a b)"
proof
  assume "w \<in> lang (Cat (rx_opt a) b)"
  then have "w \<in> lang_cat (insert [] (lang a)) (lang b)" by (simp only: lang.simps lang_opt)
  then obtain p q where pq: "w = p @ q" "p \<in> insert [] (lang a)" "q \<in> lang b"
    by (rule lang_catE)
  show "w \<in> lang b \<or> w \<in> lang (Cat a b)"
  proof (cases "p = []")
    case True
    with pq show ?thesis by simp
  next
    case False
    with pq(2) have "p \<in> lang a" by simp
    then have "p @ q \<in> lang_cat (lang a) (lang b)" using pq(3) by (rule lang_catI)
    with pq(1) show ?thesis by simp
  qed
next
  assume "w \<in> lang b \<or> w \<in> lang (Cat a b)"
  then show "w \<in> lang (Cat (rx_opt a) b)"
  proof
    assume "w \<in> lang b"
    then have "[] @ w \<in> lang_cat (insert [] (lang a)) (lang b)"
      by (intro lang_catI) simp_all
    then show ?thesis by (simp add: lang_opt)
  next
    assume "w \<in> lang (Cat a b)"
    then have "w \<in> lang_cat (lang a) (lang b)" by (simp only: lang.simps)
    then obtain p q where pq: "w = p @ q" "p \<in> lang a" "q \<in> lang b"
      by (rule lang_catE)
    then have "p @ q \<in> lang_cat (insert [] (lang a)) (lang b)"
      by (intro lang_catI) simp_all
    with pq(1) show ?thesis by (simp add: lang_opt)
  qed
qed

lemma lang_Cat_opt_Cls:
  "w \<in> lang (Cat (rx_opt (Cls cs)) b)
   \<longleftrightarrow> w \<in> lang b \<or> (\<exists>c r. w = c # r \<and> c \<in> set cs \<and> r \<in> lang b)"
  unfolding lang_Cat_opt lang_Cat_Cls ..

lemma lang_digit_optdigit:
  "w \<in> lang (Cat rx_digit (rx_opt rx_digit))
   \<longleftrightarrow> (\<exists>a. w = [a] \<and> is_digit_class a) \<or> (\<exists>a b. w = [a, b] \<and> is_digit_class a \<and> is_digit_class b)"
  unfolding rx_digit_def lang_Cat_Cls lang_opt_Cls is_digit_class_def by blast

lemma lang_octet_alt1:
  "w \<in> lang (Cat (Cls ''2'') (Cat (Cls ''5'') (Cls ''012345'')))
   \<longleftrightarrow> (\<exists>c. w = [CHR ''2'', CHR ''5'', c] \<and> c \<in> set ''012345'')"
  unfolding lang_Cat_Cls lang_Cls by auto

lemma lang_octet_alt2:
  "w \<in> lang (Cat (Cls ''2'') (Cat (Cls ''01234'') rx_digit))
   \<longleftrightarrow> (\<exists>b c. w = [CHR ''2'', b, c] \<and> b \<in> set ''01234'' \<and> is_digit_class c)"
  unfolding rx_digit_def lang_Cat_Cls lang_Cls is_digit_class_def by auto

lemma lang_octet_alt3:
  "w \<in> lang (Cat (rx_opt (Cls ''01'')) (Cat rx_digit (rx_opt rx_digit)))
   \<longleftrightarrow> (\<exists>a. w = [a] \<and> is_digit_class a)
       \<or> (\<exists>a b. w = [a, b] \<and> is_digit_class a \<and> is_digit_class b)
       \<or> (\<exists>a b c. w = [a, b, c] \<and> a \<in> set ''01'' \<and> is_digit_class b \<and> is_digit_class c)"
proof -
  have d: "\<And>a. a \<in> set ''01'' \<Longrightarrow> is_digit_class a"
    by (simp add: digit_subclasses(1))
  show ?thesis
    unfolding lang_Cat_opt_Cls lang_digit_optdigit using d by blast
qed

lemma lang_octet_forms:
  "w \<in> lang rx_octet \<longleftrightarrow>
     (\<exists>c. w = [CHR ''2'', CHR ''5'', c] \<and> c \<in> set ''012345'')
     \<or> (\<exists>b c. w = [CHR ''2'', b, c] \<and> b \<in> set ''01234'' \<and> is_digit_class c)
     \<or> (\<exists>a. w = [a] \<and> is_digit_class a)
     \<or> (\<exists>a b. w = [a, b] \<and> is_digit_class a \<and> is_digit_class b)
     \<or> (\<exists>a b c. w = [a, b, c] \<and> a \<in> set ''01'' \<and> is_digit_class b \<and> is_digit_class c)"
proof -
  have "w \<in> lang rx_octet \<longleftrightarrow>
      w \<in> lang (Cat (Cls ''2'') (Cat (Cls ''5'') (Cls ''012345'')))
      \<or> w \<in> lang (Cat (Cls ''2'') (Cat (Cls ''01234'') rx_digit))
      \<or> w \<in> lang (Cat (rx_opt (Cls ''01'')) (Cat rx_digit (rx_opt rx_digit)))"
    by (simp add: rx_octet_def)
  then show ?thesis
    by (simp only: lang_octet_alt1 lang_octet_alt2 lang_octet_alt3)
qed

lemma lang_octetI:
  "c \<in> set ''012345'' \<Longrightarrow> [CHR ''2'', CHR ''5'', c] \<in> lang rx_octet"
  "b \<in> set ''01234'' \<Longrightarrow> is_digit_class c \<Longrightarrow> [CHR ''2'', b, c] \<in> lang rx_octet"
  "is_digit_class a \<Longrightarrow> [a] \<in> lang rx_octet"
  "is_digit_class a \<Longrightarrow> is_digit_class b \<Longrightarrow> [a, b] \<in> lang rx_octet"
  "a \<in> set ''01'' \<Longrightarrow> is_digit_class b \<Longrightarrow> is_digit_class c \<Longrightarrow> [a, b, c] \<in> lang rx_octet"
  unfolding lang_octet_forms by simp_all

lemma octet_text_lang1:
  assumes "w \<in> lang rx_octet"
  shows "octet_text w"
proof -
  from assms consider
      (a) c where "w = [CHR ''2'', CHR ''5'', c]" "c \<in> set ''012345''"
    | (b) b c where "w = [CHR ''2'', b, c]" "b \<in> set ''01234''" "is_digit_class c"
    | (c) a where "w = [a]" "is_digit_class a"
    | (d) a b where "w = [a, b]" "is_digit_class a" "is_digit_class b"
    | (e) a b c where "w = [a, b, c]" "a \<in> set ''01''" "is_digit_class b" "is_digit_class c"
    unfolding lang_octet_forms by blast
  then show ?thesis
  proof cases
    case a
    then show ?thesis
      using digit_subclasses(3) [of c] digit_subclasses(4,5)
      by (simp add: octet_text_def dec_value_simps)
  next
    case b
    then show ?thesis
      using digit_subclasses(2) [of b] digit_subclasses(4) digit_value_le9 [of c]
      by (simp add: octet_text_def dec_value_simps)
  next
    case c
    then show ?thesis
      using digit_value_le9 [of a] by (simp add: octet_text_def dec_value_simps)
  next
    case d
    then show ?thesis
      using digit_value_le9 [of a] digit_value_le9 [of b]
      by (simp add: octet_text_def dec_value_simps)
  next
    case e
    then show ?thesis
      using digit_subclasses(1) [of a] digit_value_le9 [of b] digit_value_le9 [of c]
      by (simp add: octet_text_def dec_value_simps)
  qed
qed

lemma octet_text_lang2:
  assumes "octet_text w"
  shows "w \<in> lang rx_octet"
proof -
  from assms have len: "1 \<le> length w" "length w \<le> 3" and dg: "list_all is_digit_class w"
    and v: "dec_value w \<le> 255"
    by (simp_all add: octet_text_def)
  from len have "length w = Suc 0 \<or> length w = Suc (Suc 0) \<or> length w = Suc (Suc (Suc 0))"
    by linarith
  then consider (one) a where "w = [a]" | (two) a b where "w = [a, b]"
    | (three) a b c where "w = [a, b, c]"
    by (auto simp: length_Suc_conv)
  then show ?thesis
  proof cases
    case one
    with dg show ?thesis by (simp add: lang_octetI)
  next
    case two
    with dg show ?thesis by (simp add: lang_octetI)
  next
    case three
    with dg have d: "is_digit_class a" "is_digit_class b" "is_digit_class c" by simp_all
    from v three have val: "100 * digit_value a + 10 * digit_value b + digit_value c \<le> 255"
      by (simp add: dec_value_simps)
    show ?thesis
    proof (cases "digit_value a \<le> 1")
      case True
      then have "a \<in> set ''01''" using digit_value_cases [OF d(1)] by blast
      with three d show ?thesis by (simp only: lang_octetI)
    next
      case False
      with val have a2: "digit_value a = 2" by linarith
      then have a: "a = CHR ''2''" using digit_value_cases [OF d(1)] by blast
      show ?thesis
      proof (cases "digit_value b \<le> 4")
        case True
        then have "b \<in> set ''01234''" using digit_value_cases [OF d(2)] by blast
        with three a d show ?thesis by (simp only: lang_octetI)
      next
        case False
        with val a2 have b5: "digit_value b = 5" by linarith
        then have b: "b = CHR ''5''" using digit_value_cases [OF d(2)] by blast
        from val a2 b5 have "digit_value c \<le> 5" by linarith
        then have "c \<in> set ''012345''" using digit_value_cases [OF d(3)] by blast
        with three a b show ?thesis by (simp only: lang_octetI)
      qed
    qed
  qed
qed

lemma lang_rx_octet: "w \<in> lang rx_octet \<longleftrightarrow> octet_text w"
  using octet_text_lang1 octet_text_lang2 by blast

lemma dot_not_digit: "\<not> is_digit_class (CHR ''.'')"
  by (simp add: is_digit_class_def digit_chars_def)

lemma octet_text_no_dot: "octet_text w \<Longrightarrow> CHR ''.'' \<notin> set w"
proof -
  assume "octet_text w"
  then have "\<forall>c\<in>set w. is_digit_class c" by (simp add: octet_text_def list_all_iff)
  then show ?thesis using dot_not_digit by blast
qed

lemma lang_rx_dot: "w \<in> lang rx_dot \<longleftrightarrow> w = ''.''"
  by (auto simp: rx_dot_def)

lemma lang_CatE:
  assumes "w \<in> lang (Cat a b)"
  obtains p q where "w = p @ q" "p \<in> lang a" "q \<in> lang b"
proof -
  from assms have "w \<in> lang_cat (lang a) (lang b)" by (simp only: lang.simps)
  then show ?thesis by (rule lang_catE) (rule that)
qed

lemma lang_CatI: "p \<in> lang a \<Longrightarrow> q \<in> lang b \<Longrightarrow> p @ q \<in> lang (Cat a b)"
  by (simp add: lang_catI)

lemma lang_ipv4Regex:
  "v \<in> lang ipv4Regex \<longleftrightarrow>
     (\<exists>a b c d. v = a @ ''.'' @ b @ ''.'' @ c @ ''.'' @ d
        \<and> octet_text a \<and> octet_text b \<and> octet_text c \<and> octet_text d)"
proof
  assume "v \<in> lang ipv4Regex"
  then obtain a r1 where 1: "v = a @ r1" "a \<in> lang rx_octet"
      "r1 \<in> lang (Cat rx_dot (Cat rx_octet (Cat rx_dot (Cat rx_octet (Cat rx_dot rx_octet)))))"
    unfolding ipv4Regex_def by (rule lang_CatE)
  from 1(3) obtain d1 r2 where 2: "r1 = d1 @ r2" "d1 \<in> lang rx_dot"
      "r2 \<in> lang (Cat rx_octet (Cat rx_dot (Cat rx_octet (Cat rx_dot rx_octet))))"
    by (rule lang_CatE)
  from 2(3) obtain b r3 where 3: "r2 = b @ r3" "b \<in> lang rx_octet"
      "r3 \<in> lang (Cat rx_dot (Cat rx_octet (Cat rx_dot rx_octet)))"
    by (rule lang_CatE)
  from 3(3) obtain d2 r4 where 4: "r3 = d2 @ r4" "d2 \<in> lang rx_dot"
      "r4 \<in> lang (Cat rx_octet (Cat rx_dot rx_octet))"
    by (rule lang_CatE)
  from 4(3) obtain c r5 where 5: "r4 = c @ r5" "c \<in> lang rx_octet"
      "r5 \<in> lang (Cat rx_dot rx_octet)"
    by (rule lang_CatE)
  from 5(3) obtain d3 d where 6: "r5 = d3 @ d" "d3 \<in> lang rx_dot" "d \<in> lang rx_octet"
    by (rule lang_CatE)
  have "v = a @ ''.'' @ b @ ''.'' @ c @ ''.'' @ d"
    using 1(1) 2(1,2) 3(1) 4(1,2) 5(1) 6(1,2) by (simp add: lang_rx_dot)
  moreover have "octet_text a" "octet_text b" "octet_text c" "octet_text d"
    using 1(2) 3(2) 5(2) 6(3) by (simp_all add: lang_rx_octet)
  ultimately show "\<exists>a b c d. v = a @ ''.'' @ b @ ''.'' @ c @ ''.'' @ d
        \<and> octet_text a \<and> octet_text b \<and> octet_text c \<and> octet_text d"
    by blast
next
  assume "\<exists>a b c d. v = a @ ''.'' @ b @ ''.'' @ c @ ''.'' @ d
        \<and> octet_text a \<and> octet_text b \<and> octet_text c \<and> octet_text d"
  then obtain a b c d where v: "v = a @ ''.'' @ b @ ''.'' @ c @ ''.'' @ d"
    and o: "a \<in> lang rx_octet" "b \<in> lang rx_octet" "c \<in> lang rx_octet" "d \<in> lang rx_octet"
    unfolding lang_rx_octet by blast
  have dt: "''.'' \<in> lang rx_dot" by (simp add: lang_rx_dot)
  show "v \<in> lang ipv4Regex"
    unfolding ipv4Regex_def v
    by (intro lang_CatI o dt)
qed

lemma length4E:
  assumes "length xs = 4"
  obtains a b c d where "xs = [a, b, c, d]"
proof -
  from assms have "length xs = Suc (Suc (Suc (Suc 0)))" by simp
  then show ?thesis using that by (auto simp: length_Suc_conv)
qed

lemma ipv4_validate_dotted_quad: "ipv4_validate v \<longleftrightarrow> dotted_quad octet_text v"
proof
  assume "ipv4_validate v"
  then obtain a b c d where v: "v = a @ ''.'' @ b @ ''.'' @ c @ ''.'' @ d"
    and o: "octet_text a" "octet_text b" "octet_text c" "octet_text d"
    unfolding ipv4_validate_def rx_test_lang lang_ipv4Regex by blast
  have sp: "js_split (CHR ''.'') v = [a, b, c, d]"
    using o by (simp add: v js_split_append js_split_no_delim octet_text_no_dot)
  show "dotted_quad octet_text v"
    unfolding dotted_quad_def sp using o by simp
next
  assume "dotted_quad octet_text v"
  then have len: "length (js_split (CHR ''.'') v) = 4"
    and al: "list_all octet_text (js_split (CHR ''.'') v)"
    by (simp_all add: dotted_quad_def)
  from len obtain a b c d where sp: "js_split (CHR ''.'') v = [a, b, c, d]"
    by (rule length4E)
  from al have o: "octet_text a" "octet_text b" "octet_text c" "octet_text d"
    by (simp_all add: sp)
  have "v = js_join (CHR ''.'') (js_split (CHR ''.'') v)" by (simp add: js_join_split)
  also have "\<dots> = a @ ''.'' @ b @ ''.'' @ c @ ''.'' @ d" by (simp add: sp)
  finally show "ipv4_validate v"
    unfolding ipv4_validate_def rx_test_lang lang_ipv4Regex using o by blast
qed

text \<open>
  Claim C2. The IPv4 \<open>validate\<close> should return true exactly for the strings made of four
  dot-separated segments, each a decimal number from 0 to 255 written without a
  leading zero before further digits, so that \<open>01\<close> and \<open>001\<close> are not accepted. The
  code does not do this: its octet pattern \<open>[01]?\d\d?\<close> lets a \<open>0\<close> or \<open>1\<close> precede one
  or two digits, and \<open>validate\<close> returns true for \<open>01.1.1.1\<close> and \<open>001.1.1.1\<close>, neither
  of which is a dotted quad of strictly written octets. What \<open>validate\<close> accepts in
  general is given by \<open>ipv4_validate_dotted_quad\<close>: four segments of one to three
  digits reading at most 255.
\<close>

theorem ipv4_validate_accepts_leading_zero:
  "ipv4_validate ''01.1.1.1'' \<and> ipv4_validate ''001.1.1.1''
   \<and> \<not> dotted_quad octet_text_strict ''01.1.1.1''
   \<and> \<not> dotted_quad octet_text_strict ''001.1.1.1''"
  by code_simp

section \<open>MAC format: shape of the output\<close>

lemma colon_not_hex: "\<not> is_hex_class (CHR '':'')"
  by (simp add: is_hex_class_def hex_chars_def)

lemma hex_is_hex_colon: "is_hex_class c \<Longrightarrow> is_hex_colon_class c"
  by (simp add: is_hex_colon_class_def)

lemma js_slice_pair: "js_slice h (int i) (int i + 2) = take 2 (drop i h)"
proof -
  have "int i + 2 = int (i + 2)" by simp
  then show ?thesis by (simp only: js_slice_nat) simp
qed

lemma mac_pairs_loop_concat:
  "concat (mac_pairs_loop h i acc) = concat acc @ drop i h"
proof (induction h i acc rule: mac_pairs_loop.induct)
  case (1 hexOnly i pairs)
  show ?case
  proof (cases "i < length hexOnly")
    case True
    have "take 2 (drop i hexOnly) @ drop (i + 2) hexOnly = drop i hexOnly"
      by (metis append_take_drop_id drop_drop add.commute)
    with True 1 show ?thesis
      by (subst mac_pairs_loop.simps) (simp add: js_slice_pair)
  next
    case False
    then show ?thesis by (subst mac_pairs_loop.simps) simp
  qed
qed

lemma mac_pairs_loop_length:
  "length (mac_pairs_loop h i acc) = length acc + (length h - i + 1) div 2"
proof (induction h i acc rule: mac_pairs_loop.induct)
  case (1 hexOnly i pairs)
  show ?case
  proof (cases "i < length hexOnly")
    case True
    then have "(length hexOnly - i + 1) div 2 = Suc ((length hexOnly - (i + 2) + 1) div 2)"
      by (cases "length hexOnly - i = 1") (auto simp: div_add_self2 [symmetric])
    with True 1 show ?thesis
      by (subst mac_pairs_loop.simps) simp
  next
    case False
    then show ?thesis by (subst mac_pairs_loop.simps) simp
  qed
qed

lemma mac_pairs_loop_short:
  "\<forall>s\<in>set acc. length s \<le> 2 \<Longrightarrow> \<forall>s\<in>set (mac_pairs_loop h i acc). length s \<le> 2"
proof (induction h i acc rule: mac_pairs_loop.induct)
  case (1 hexOnly i pairs)
  show ?case
  proof (cases "i < length hexOnly")
    case True
    have "\<forall>s\<in>set (pairs @ [js_slice hexOnly (int i) (int i + 2)]). length s \<le> 2"
      using "1.prems" by (auto simp: js_slice_pair)
    with True "1.IH" show ?thesis
      by (subst mac_pairs_loop.simps) simp
  next
    case False
    with "1.prems" show ?thesis by (subst mac_pairs_loop.simps) simp
  qed
qed

lemma mac_pairs_loop_chars:
  assumes "s \<in> set (mac_pairs_loop h 0 [])"
  shows "set s \<subseteq> set h"
proof -
  have "set s \<subseteq> set (concat (mac_pairs_loop h 0 []))" using assms by auto
  then show ?thesis by (simp add: mac_pairs_loop_concat)
qed

lemma mac_pairs_loop_small:
  "length h \<le> 2 \<Longrightarrow> mac_pairs_loop h 0 [] = (if h = [] then [] else [h])"
  by (subst mac_pairs_loop.simps, subst mac_pairs_loop.simps) (simp add: js_slice_def slice_index_def)

lemma js_join_has_delim: "2 \<le> length ss \<Longrightarrow> d \<in> set (js_join d ss)"
  by (induction d ss rule: js_join.induct) auto

lemma js_join_chars: "set (js_join d ss) \<subseteq> insert d (\<Union>s\<in>set ss. set s)"
  by (induction d ss rule: js_join.induct) auto

text \<open>The strings the MAC \<open>format\<close> leaves unchanged: at most six short hex segments.\<close>

lemma mac_format_fixed:
  assumes ne: "ss \<noteq> []" and len: "length ss \<le> 6"
    and seg: "\<forall>s\<in>set ss. length s \<le> 2 \<and> (\<forall>c\<in>set s. is_hex_class c)"
  shows "mac_format (js_join (CHR '':'') ss) = js_join (CHR '':'') ss"
proof -
  let ?v = "js_join (CHR '':'') ss"
  have chars: "\<forall>c\<in>set ?v. is_hex_colon_class c"
    using js_join_chars [of "CHR '':''" ss] seg
    by (auto simp: is_hex_colon_class_def)
  then have cl: "filter is_hex_colon_class ?v = ?v" by simp
  have nocolon: "\<forall>s\<in>set ss. CHR '':'' \<notin> set s"
    using seg colon_not_hex by blast
  have sp: "js_split (CHR '':'') ?v = ss"
    using ne nocolon by (rule js_split_join)
  have raw: "map (filter is_hex_class) (take 6 ss) = ss"
    using len seg by (simp add: map_idI)
  have short: "list_all (\<lambda>seg. length seg \<le> 2) ss"
    using seg by (simp add: list_all_iff)
  have tk: "map (\<lambda>seg. js_slice seg 0 2) ss = ss"
    using seg js_slice_0_nat [of _ 2] by (simp add: map_idI)
  show ?thesis
  proof (cases "CHR '':'' \<in> set ?v")
    case True
    then show ?thesis
      by (simp add: mac_format_def cl sp raw short tk)
  next
    case False
    then have "\<not> 2 \<le> length ss" using js_join_has_delim by blast
    with ne obtain s where ss: "ss = [s]"
      by (cases ss rule: list.exhaust; cases "tl ss") auto
    with seg have s: "length s \<le> 2" "\<forall>c\<in>set s. is_hex_class c" by simp_all
    have v: "?v = s" by (simp add: ss)
    have h: "js_slice (filter is_hex_class s) 0 12 = s"
      using s js_slice_0_nat [of _ 12] by simp
    have "mac_format s = js_join (CHR '':'') (mac_pairs_loop s 0 [])"
      using False by (simp add: mac_format_def v h Let_def)
    also have "\<dots> = s" using s(1) by (simp add: mac_pairs_loop_small)
    finally show ?thesis by (simp add: v)
  qed
qed

lemma mac_format_shape:
  "\<exists>ss. mac_format v = js_join (CHR '':'') ss \<and> ss \<noteq> [] \<and> length ss \<le> 6
        \<and> (\<forall>s\<in>set ss. length s \<le> 2 \<and> (\<forall>c\<in>set s. is_hex_class c))"
proof -
  let ?raw = "map (filter is_hex_class) (take 6 (js_split (CHR '':'') (filter is_hex_colon_class v)))"
  let ?h = "js_slice (filter is_hex_class v) 0 12"
  let ?pairs = "mac_pairs_loop ?h 0 []"
  show ?thesis
  proof (cases "CHR '':'' \<in> set (filter is_hex_colon_class v) \<and> list_all (\<lambda>seg. length seg \<le> 2) ?raw")
    case True
    let ?ss = "map (\<lambda>seg. js_slice seg 0 2) ?raw"
    have "mac_format v = js_join (CHR '':'') ?ss"
      using True by (simp add: mac_format_def)
    moreover have "?ss \<noteq> []" by simp
    moreover have "length ?ss \<le> 6" by simp
    moreover have "\<forall>s\<in>set ?ss. length s \<le> 2 \<and> (\<forall>c\<in>set s. is_hex_class c)"
      using js_slice_0_nat [of _ 2] by (auto dest: in_set_takeD)
    ultimately show ?thesis by blast
  next
    case False
    have mf: "mac_format v = js_join (CHR '':'') ?pairs"
      using False by (auto simp: mac_format_def Let_def)
    have hl: "length ?h \<le> 12" using js_slice_0_nat [of _ 12] by simp
    have hh: "\<forall>c\<in>set ?h. is_hex_class c"
      using js_slice_0_nat [of "filter is_hex_class v" 12] by (auto dest: in_set_takeD)
    have pl: "length ?pairs \<le> 6" using hl by (simp add: mac_pairs_loop_length)
    have ps: "\<forall>s\<in>set ?pairs. length s \<le> 2 \<and> (\<forall>c\<in>set s. is_hex_class c)"
      using mac_pairs_loop_short [of "[]" ?h 0] mac_pairs_loop_chars [of _ ?h] hh by auto
    show ?thesis
    proof (cases "?pairs = []")
      case True
      then have "mac_format v = js_join (CHR '':'') [[]]" using mf by simp
      then show ?thesis by (intro exI [of _ "[[]]"]) simp
    next
      case False
      with mf pl ps show ?thesis by blast
    qed
  qed
qed

lemma mac_format_idem: "mac_format (mac_format v) = mac_format v"
proof -
  obtain ss where "mac_format v = js_join (CHR '':'') ss" "ss \<noteq> []" "length ss \<le> 6"
    "\<forall>s\<in>set ss. length s \<le> 2 \<and> (\<forall>c\<in>set s. is_hex_class c)"
    using mac_format_shape by blast
  then show ?thesis using mac_format_fixed by simp
qed

section \<open>IPv6 format: collapsing runs of colons\<close>

lemma run3_lead:
  "run3 k s \<Longrightarrow>
   length (takeWhile (\<lambda>x. x = CHR '':'') s) = 0
   \<or> k + length (takeWhile (\<lambda>x. x = CHR '':'') s) \<le> 2"
proof (induction s arbitrary: k)
  case Nil
  then show ?case by simp
next
  case (Cons c cs)
  show ?case
  proof (cases "c = CHR '':''")
    case True
    with Cons.prems have k: "k < 2" and r: "run3 (Suc k) cs" by simp_all
    from Cons.IH [OF r] have "length (takeWhile (\<lambda>x. x = CHR '':'') cs) = 0 \<or> Suc k + length (takeWhile (\<lambda>x. x = CHR '':'') cs) \<le> 2" .
    with True k show ?thesis by auto
  next
    case False
    then show ?thesis by simp
  qed
qed

lemma collapse_colons_fixed: "run3 k s \<Longrightarrow> collapse_colons s = s"
proof (induction s arbitrary: k)
  case Nil
  then show ?case by simp
next
  case (Cons c cs)
  show ?case
  proof (cases "c = CHR '':''")
    case True
    with Cons.prems have r: "run3 (Suc k) cs" by simp
    then have "length (takeWhile (\<lambda>x. x = CHR '':'') cs) \<le> 1" using run3_lead [OF r] by auto
    with True Cons.IH [OF r] show ?thesis by simp
  next
    case False
    with Cons.prems have "run3 0 cs" by simp
    with False Cons.IH show ?thesis by simp
  qed
qed

lemma collapse_colons_run3:
  "length (takeWhile (\<lambda>x. x = CHR '':'') s) = 0
   \<or> k + min (length (takeWhile (\<lambda>x. x = CHR '':'') s)) 2 \<le> 2
   \<Longrightarrow> run3 k (collapse_colons s)"
proof (induction s arbitrary: k rule: collapse_colons.induct)
  case 1
  then show ?case by simp
next
  case (2 c cs)
  show ?case
  proof (cases "c = CHR '':''")
    case False
    have "run3 0 (collapse_colons cs)"
      using False by (intro "2.IH"(2)) auto
    with False show ?thesis by simp
  next
    case True
    show ?thesis
    proof (cases "3 \<le> length (takeWhile (\<lambda>x. x = CHR '':'') (c # cs))")
      case long: True
      with True "2.prems" have k: "k = 0" by auto
      have "length (takeWhile (\<lambda>x. x = CHR '':'') (dropWhile (\<lambda>x. x = CHR '':'') cs)) = 0"
        by (metis (mono_tags, lifting) dropWhile_eq_Nil_conv hd_dropWhile length_0_conv
            list.collapse takeWhile.simps(1) takeWhile.simps(2))
      then have "run3 (Suc (Suc 0)) (collapse_colons (dropWhile (\<lambda>x. x = CHR '':'') cs))"
        using True long by (intro "2.IH"(1)) auto
      with True long k show ?thesis by simp
    next
      case short: False
      with True have lc: "length (takeWhile (\<lambda>x. x = CHR '':'') cs) \<le> 1" by simp
      from "2.prems" True have k: "k + min (Suc (length (takeWhile (\<lambda>x. x = CHR '':'') cs))) 2 \<le> 2" by simp
      then have k2: "k < 2" by (auto simp: min_def split: if_splits)
      have "length (takeWhile (\<lambda>x. x = CHR '':'') cs) = 0 \<or> Suc k + min (length (takeWhile (\<lambda>x. x = CHR '':'') cs)) 2 \<le> 2"
        using lc k by (auto simp: min_def split: if_splits)
      then have "run3 (Suc k) (collapse_colons cs)"
        using True short by (intro "2.IH"(2)) auto
      with True short k2 show ?thesis by simp
    qed
  qed
qed

lemma collapse_colons_idem: "collapse_colons (collapse_colons s) = collapse_colons s"
  using collapse_colons_run3 [of s 0] collapse_colons_fixed by simp

lemma collapse_colons_chars: "set (collapse_colons s) \<subseteq> set s"
proof (induction s rule: collapse_colons.induct)
  case 1
  then show ?case by simp
next
  case (2 c cs)
  show ?case
  proof (cases "c = CHR '':'' \<and> 3 \<le> length (takeWhile (\<lambda>x. x = CHR '':'') (c # cs))")
    case True
    have "set (dropWhile (\<lambda>x. x = CHR '':'') cs) \<subseteq> set cs"
      by (simp add: set_dropWhileD subsetI)
    with "2.IH"(1) [OF True] have "set (collapse_colons (dropWhile (\<lambda>x. x = CHR '':'') cs)) \<subseteq> set cs"
      by blast
    moreover from True have c: "c = CHR '':''"
      and l: "3 \<le> length (takeWhile (\<lambda>x. x = CHR '':'') (c # cs))" by blast+
    have "collapse_colons (c # cs)
        = CHR '':'' # CHR '':'' # collapse_colons (dropWhile (\<lambda>x. x = CHR '':'') cs)"
      using c l by simp
    ultimately show ?thesis using c by auto
  next
    case False
    then have "collapse_colons (c # cs) = c # collapse_colons cs" by auto
    with "2.IH"(2) [OF False] show ?thesis by auto
  qed
qed

lemma filter_dropWhile_colon:
  "filter (\<lambda>x. x \<noteq> CHR '':'') (dropWhile (\<lambda>x. x = CHR '':'') cs) = filter (\<lambda>x. x \<noteq> CHR '':'') cs"
  by (induction cs) auto

lemma collapse_colons_others:
  "filter (\<lambda>x. x \<noteq> CHR '':'') (collapse_colons s) = filter (\<lambda>x. x \<noteq> CHR '':'') s"
proof (induction s rule: collapse_colons.induct)
  case 1
  then show ?case by simp
next
  case (2 c cs)
  then show ?case by (auto simp: filter_dropWhile_colon split: if_splits)
qed

lemma ipv6_format_idem: "ipv6_format (ipv6_format v) = ipv6_format v"
proof -
  let ?c = "filter is_hex_colon_class v"
  have "\<forall>x\<in>set (collapse_colons ?c). is_hex_colon_class x"
    using collapse_colons_chars [of ?c] by auto
  then have "filter is_hex_colon_class (collapse_colons ?c) = collapse_colons ?c" by simp
  then show ?thesis by (simp add: ipv6_format_def collapse_colons_idem)
qed

lemma ipv6_format_fixed:
  "\<forall>c\<in>set v. is_hex_colon_class c \<Longrightarrow> run3 0 v \<Longrightarrow> ipv6_format v = v"
  by (simp add: ipv6_format_def collapse_colons_fixed)

section \<open>IPv6 validation: no run of three colons\<close>

lemma run3_hex_group: "hex_group p \<Longrightarrow> run3 k (p @ t) = run3 0 t"
proof (induction p arbitrary: k)
  case Nil
  then show ?case by (simp add: hex_group_def)
next
  case (Cons c p)
  then have c: "c \<noteq> CHR '':''" using colon_not_hex by (auto simp: hex_group_def)
  show ?case
  proof (cases "p = []")
    case True
    with c show ?thesis by simp
  next
    case False
    with Cons.prems have "hex_group p" by (simp add: hex_group_def)
    then have "run3 0 (p @ t) = run3 0 t" by (rule Cons.IH)
    with c show ?thesis by simp
  qed
qed

lemma hex_group_append: "hex_group p \<Longrightarrow> hex_group q \<Longrightarrow> hex_group (p @ q)"
  by (auto simp: hex_group_def)

lemma hc_group_append: "hc_group p \<Longrightarrow> hc_group q \<Longrightarrow> hc_group (p @ q)"
  by (auto simp: hc_group_def)

lemma ch_group_append: "ch_group p \<Longrightarrow> ch_group q \<Longrightarrow> ch_group (p @ q)"
  by (auto simp: ch_group_def)

lemma lang_rx_hex: "p \<in> lang rx_hex \<Longrightarrow> hex_group p"
  by (auto simp: rx_hex_def hex_group_def is_hex_class_def)

lemma lang_rx_colon: "p \<in> lang rx_colon \<longleftrightarrow> p = '':''"
  by (auto simp: rx_colon_def)

lemma lang_rx_hextet: "p \<in> lang rx_hextet \<Longrightarrow> hex_group p"
  unfolding rx_hextet_def
  by (rule lang_rep_closed [where a = rx_hex and Q = hex_group and m = 1 and n = 4])
     (simp_all add: lang_rx_hex hex_group_append)

lemma hex_group_chars: "hex_group p \<Longrightarrow> \<forall>c\<in>set p. is_hex_colon_class c"
  by (simp add: hex_group_def hex_is_hex_colon)

lemma colon_chars: "is_hex_colon_class (CHR '':'')"
  by (simp add: is_hex_colon_class_def)

lemma lang_rx_hc: "p \<in> lang rx_hc \<Longrightarrow> hc_group p"
proof -
  assume "p \<in> lang rx_hc"
  then obtain h c where p: "p = h @ c" and h: "h \<in> lang rx_hextet" and c: "c \<in> lang rx_colon"
    unfolding rx_hc_def by (rule lang_CatE)
  from h have hg: "hex_group h" by (rule lang_rx_hextet)
  from c have c': "c = '':''" by (simp add: lang_rx_colon)
  show ?thesis
    unfolding hc_group_def p c'
    using hex_group_chars [OF hg] colon_chars by (auto simp: run3_hex_group [OF hg])
qed

lemma lang_rx_ch: "p \<in> lang rx_ch \<Longrightarrow> ch_group p"
proof -
  assume "p \<in> lang rx_ch"
  then obtain c h where p: "p = c @ h" and c: "c \<in> lang rx_colon" and h: "h \<in> lang rx_hextet"
    unfolding rx_ch_def by (rule lang_CatE)
  from h have hg: "hex_group h" by (rule lang_rx_hextet)
  from c have c': "c = '':''" by (simp add: lang_rx_colon)
  show ?thesis
    unfolding ch_group_def p c'
    using hex_group_chars [OF hg] colon_chars by (auto simp: run3_hex_group [OF hg])
qed

lemma lang_rep_hc: "0 < m \<Longrightarrow> p \<in> lang (rx_rep m n rx_hc) \<Longrightarrow> hc_group p"
  by (rule lang_rep_closed [where a = rx_hc and Q = hc_group and m = m and n = n])
     (simp_all add: lang_rx_hc hc_group_append)

lemma lang_rep_ch: "0 < m \<Longrightarrow> p \<in> lang (rx_rep m n rx_ch) \<Longrightarrow> ch_group p"
  by (rule lang_rep_closed [where a = rx_ch and Q = ch_group and m = m and n = n])
     (simp_all add: lang_rx_ch ch_group_append)

text \<open>A tail that may follow a group \<open>hextet:\<close>.\<close>

lemma hc_then:
  assumes "hc_group p" and "run3 (Suc 0) t" and "\<forall>c\<in>set t. is_hex_colon_class c"
  shows "run3 0 (p @ t) \<and> (\<forall>c\<in>set (p @ t). is_hex_colon_class c)"
  using assms by (auto simp: hc_group_def)

lemma tail_hextet:
  "t \<in> lang rx_hextet \<Longrightarrow> run3 (Suc 0) t \<and> (\<forall>c\<in>set t. is_hex_colon_class c)"
  using run3_hex_group [of t "Suc 0" "[]"] hex_group_chars [of t] lang_rx_hextet [of t] by simp

lemma tail_colon:
  "t \<in> lang rx_colon \<Longrightarrow> run3 (Suc 0) t \<and> (\<forall>c\<in>set t. is_hex_colon_class c)"
  by (simp add: lang_rx_colon colon_chars)

lemma tail_ch_group:
  "ch_group t \<Longrightarrow> run3 (Suc 0) t \<and> (\<forall>c\<in>set t. is_hex_colon_class c)"
proof -
  assume a: "ch_group t"
  then have "run3 (Suc 0) (t @ []) = (Suc 0 < (2::nat) \<and> run3 0 [])" unfolding ch_group_def by blast
  with a show ?thesis by (simp add: ch_group_def)
qed

lemma tail_colon_hextet:
  "t \<in> lang (Cat rx_colon rx_hextet) \<Longrightarrow> run3 (Suc 0) t \<and> (\<forall>c\<in>set t. is_hex_colon_class c)"
  using lang_rx_ch [of t] tail_ch_group [of t] by (simp add: rx_ch_def)

lemma tail_rep_ch:
  "0 < m \<Longrightarrow> t \<in> lang (rx_rep m n rx_ch) \<Longrightarrow> run3 (Suc 0) t \<and> (\<forall>c\<in>set t. is_hex_colon_class c)"
  using lang_rep_ch [of m t n] tail_ch_group [of t] by simp

lemma lang_hc_then:
  assumes "w \<in> lang (Cat (rx_rep m n rx_hc) b)" and "0 < m"
    and "\<And>t. t \<in> lang b \<Longrightarrow> run3 (Suc 0) t \<and> (\<forall>c\<in>set t. is_hex_colon_class c)"
  shows "run3 0 w \<and> (\<forall>c\<in>set w. is_hex_colon_class c)"
proof -
  from assms(1) obtain p t where w: "w = p @ t" and p: "p \<in> lang (rx_rep m n rx_hc)"
    and t: "t \<in> lang b"
    by (rule lang_CatE)
  from assms(2) p have "hc_group p" by (rule lang_rep_hc)
  then show ?thesis unfolding w using assms(3) [OF t] by (intro hc_then) simp_all
qed

lemma lang_colon_then:
  assumes "w \<in> lang (Cat rx_colon b)"
    and "\<And>t. t \<in> lang b \<Longrightarrow> run3 (Suc 0) t \<and> (\<forall>c\<in>set t. is_hex_colon_class c)"
  shows "run3 0 w \<and> (\<forall>c\<in>set w. is_hex_colon_class c)"
proof -
  from assms(1) obtain p t where w: "w = p @ t" and p: "p \<in> lang rx_colon" and t: "t \<in> lang b"
    by (rule lang_CatE)
  from p have p': "p = '':''" by (simp add: lang_rx_colon)
  show ?thesis unfolding w p' using assms(2) [OF t] colon_chars by simp
qed

lemma lang_Cat_Alt: "lang (Cat c (Alt a b)) = lang (Cat c a) \<union> lang (Cat c b)"
  by (auto simp: lang_cat_def)

lemma lang_ipv6Regex:
  assumes "v \<in> lang ipv6Regex"
  shows "run3 0 v \<and> (\<forall>c\<in>set v. is_hex_colon_class c)"
proof -
  from assms have "v \<in> lang (Cat (rx_rep 7 7 rx_hc) rx_hextet)
      \<union> (lang (Cat (rx_rep 1 7 rx_hc) rx_colon)
      \<union> (lang (Cat (rx_rep 1 6 rx_hc) (Cat rx_colon rx_hextet))
      \<union> (lang (Cat (rx_rep 1 5 rx_hc) (rx_rep 1 2 rx_ch))
      \<union> (lang (Cat (rx_rep 1 4 rx_hc) (rx_rep 1 3 rx_ch))
      \<union> (lang (Cat (rx_rep 1 3 rx_hc) (rx_rep 1 4 rx_ch))
      \<union> (lang (Cat (rx_rep 1 2 rx_hc) (rx_rep 1 5 rx_ch))
      \<union> (lang (Cat rx_hextet (Cat rx_colon (rx_rep 1 6 rx_ch)))
      \<union> ((lang (Cat rx_colon (rx_rep 1 7 rx_ch)) \<union> lang (Cat rx_colon rx_colon))
      \<union> lang (Cat rx_colon rx_colon)))))))))"
    unfolding ipv6Regex_def by (simp only: lang.simps(4) lang_Cat_Alt)
  then consider
      (1) "v \<in> lang (Cat (rx_rep 7 7 rx_hc) rx_hextet)"
    | (2) "v \<in> lang (Cat (rx_rep 1 7 rx_hc) rx_colon)"
    | (3) "v \<in> lang (Cat (rx_rep 1 6 rx_hc) (Cat rx_colon rx_hextet))"
    | (4) "v \<in> lang (Cat (rx_rep 1 5 rx_hc) (rx_rep 1 2 rx_ch))"
    | (5) "v \<in> lang (Cat (rx_rep 1 4 rx_hc) (rx_rep 1 3 rx_ch))"
    | (6) "v \<in> lang (Cat (rx_rep 1 3 rx_hc) (rx_rep 1 4 rx_ch))"
    | (7) "v \<in> lang (Cat (rx_rep 1 2 rx_hc) (rx_rep 1 5 rx_ch))"
    | (8) "v \<in> lang (Cat rx_hextet (Cat rx_colon (rx_rep 1 6 rx_ch)))"
    | (9) "v \<in> lang (Cat rx_colon (rx_rep 1 7 rx_ch))"
    | (10) "v \<in> lang (Cat rx_colon rx_colon)"
    unfolding Un_iff by blast
  then show ?thesis
  proof cases
    case 1
    then show ?thesis by (rule lang_hc_then) (simp, erule tail_hextet)
  next
    case 2
    then show ?thesis by (rule lang_hc_then) (simp, erule tail_colon)
  next
    case 3
    then show ?thesis by (rule lang_hc_then) (simp, erule tail_colon_hextet)
  next
    case 4
    then show ?thesis by (rule lang_hc_then) (simp, rule tail_rep_ch, simp_all)
  next
    case 5
    then show ?thesis by (rule lang_hc_then) (simp, rule tail_rep_ch, simp_all)
  next
    case 6
    then show ?thesis by (rule lang_hc_then) (simp, rule tail_rep_ch, simp_all)
  next
    case 7
    then show ?thesis by (rule lang_hc_then) (simp, rule tail_rep_ch, simp_all)
  next
    case 8
    then obtain h t where v: "v = h @ t" and h: "h \<in> lang rx_hextet"
      and t: "t \<in> lang (Cat rx_colon (rx_rep 1 6 rx_ch))" by (rule lang_CatE)
    from h have hg: "hex_group h" by (rule lang_rx_hextet)
    have "run3 0 t \<and> (\<forall>c\<in>set t. is_hex_colon_class c)"
      using t by (rule lang_colon_then) (rule tail_rep_ch, simp_all)
    then show ?thesis
      unfolding v using hex_group_chars [OF hg] by (auto simp: run3_hex_group [OF hg])
  next
    case 9
    then show ?thesis by (rule lang_colon_then) (rule tail_rep_ch, simp_all)
  next
    case 10
    then show ?thesis by (rule lang_colon_then) (erule tail_colon)
  qed
qed

lemma ipv6_validate_fixed: "ipv6_validate v \<Longrightarrow> ipv6_format v = v"
  using lang_ipv6Regex [of v] ipv6_format_fixed [of v]
  by (simp add: ipv6_validate_def rx_test_lang)

section \<open>IPv4 format: fixed points\<close>

lemma parseInt10_le3:
  "length s \<le> 3 \<Longrightarrow> parseInt10 s = None \<or> (\<exists>n. parseInt10 s = Some n \<and> n \<le> 255)
   \<Longrightarrow> ipv4_clean_segment s = s"
  by (auto simp: ipv4_clean_segment_def)

lemma ipv4_clean_segment_idem: "ipv4_clean_segment (ipv4_clean_segment s) = ipv4_clean_segment s"
proof -
  let ?t = "if length s > 3 then js_slice s 0 3 else s"
  have lt: "length ?t \<le> 3" by (simp add: js_slice_0)
  have c255: "ipv4_clean_segment ''255'' = ''255''"
    by (simp add: ipv4_clean_segment_def parseInt10_def is_digit_class_def digit_chars_def
        dec_value_def digit_value_def)
  show ?thesis
  proof (cases "parseInt10 ?t")
    case None
    then have "ipv4_clean_segment s = ?t" by (simp add: ipv4_clean_segment_def)
    moreover have "ipv4_clean_segment ?t = ?t" using lt None by (intro parseInt10_le3) auto
    ultimately show ?thesis by simp
  next
    case (Some n)
    show ?thesis
    proof (cases "n > 255")
      case True
      with Some have "ipv4_clean_segment s = ''255''" by (simp add: ipv4_clean_segment_def)
      with c255 show ?thesis by simp
    next
      case False
      with Some have "ipv4_clean_segment s = ?t" by (simp add: ipv4_clean_segment_def)
      moreover have "ipv4_clean_segment ?t = ?t" using lt Some False by (intro parseInt10_le3) auto
      ultimately show ?thesis by simp
    qed
  qed
qed

lemma ipv4_clean_segment_Nil: "ipv4_clean_segment [] = []"
  by (simp add: ipv4_clean_segment_def parseInt10_Nil)

lemma ipv4_extra_snoc_Nil: "\<not> ipv4_extra (xs @ [[]])"
proof -
  have "(xs @ [[]]) ! (length (xs @ [[]]) - 1) = []" by simp
  then show ?thesis
    unfolding ipv4_extra_def Let_def by (simp only: ipv4_clean_segment_Nil) simp
qed

lemma digit_is_digit_dot: "is_digit_class c \<Longrightarrow> is_digit_dot_class c"
  by (simp add: is_digit_dot_class_def)

text \<open>The IPv4 \<open>format\<close> of a string already joined from clean digit segments.\<close>

lemma ipv4_format_joined:
  assumes "ss \<noteq> []" and "\<forall>s\<in>set ss. \<forall>c\<in>set s. is_digit_class c"
  shows "ipv4_format (js_join (CHR ''.'') ss)
         = js_join (CHR ''.'') (map ipv4_clean_segment (take 4 ss)
             @ (if ipv4_extra ss then [[]] else []))"
proof -
  let ?v = "js_join (CHR ''.'') ss"
  have "\<forall>c\<in>set ?v. is_digit_dot_class c"
    using js_join_chars [of "CHR ''.''" ss] assms(2)
    by (auto simp: is_digit_dot_class_def)
  then have cl: "filter is_digit_dot_class ?v = ?v" by simp
  have "\<forall>s\<in>set ss. CHR ''.'' \<notin> set s" using assms(2) dot_not_digit by blast
  with assms(1) have sp: "js_split (CHR ''.'') ?v = ss" by (rule js_split_join)
  show ?thesis using assms(1) by (simp add: ipv4_format_def cl sp ipv4_format_loop_all)
qed

lemma ipv4_format_idem: "ipv4_format (ipv4_format v) = ipv4_format v"
proof -
  define segs where "segs = js_split (CHR ''.'') (filter is_digit_dot_class v)"
  define P where "P = map ipv4_clean_segment (take 4 segs)"
  define out where "out = P @ (if ipv4_extra segs then [[]] else [])"
  have ne: "segs \<noteq> []" by (simp add: segs_def)
  have f: "ipv4_format v = js_join (CHR ''.'') out"
    using ne by (simp add: ipv4_format_def ipv4_format_loop_all segs_def P_def out_def)
  have dP: "\<forall>s\<in>set P. \<forall>c\<in>set s. is_digit_class c"
    using ipv4_segments_digits [of _ v] ipv4_clean_segment_digits
    by (auto simp: P_def segs_def dest!: in_set_takeD)
  then have dout: "\<forall>s\<in>set out. \<forall>c\<in>set s. is_digit_class c" by (auto simp: out_def)
  have neo: "out \<noteq> []" using ne by (simp add: out_def P_def)
  have cleanP: "map ipv4_clean_segment P = P"
    by (simp add: P_def ipv4_clean_segment_idem)
  have lP: "length P = min (length segs) 4" by (simp add: P_def)
  have step: "map ipv4_clean_segment (take 4 out) @ (if ipv4_extra out then [[]] else []) = out"
  proof (cases "ipv4_extra segs")
    case True
    then have l3: "length segs \<le> 3" by (simp add: ipv4_extra_def)
    have out: "out = P @ [[]]" using True by (simp add: out_def)
    have t4: "take 4 (P @ [[]]) = P @ [[]]" using l3 lP by simp
    have "\<not> ipv4_extra (P @ [[]])" by (rule ipv4_extra_snoc_Nil)
    then show ?thesis
      unfolding out t4 using cleanP by (simp add: ipv4_clean_segment_Nil)
  next
    case False
    then have out: "out = P" by (simp add: out_def)
    have t4: "take 4 P = P" using lP by simp
    have "\<not> ipv4_extra P"
    proof
      assume e: "ipv4_extra P"
      then have l3: "length P \<le> 3" by (simp add: ipv4_extra_def)
      then have ls: "length segs \<le> 3" using lP by (simp add: min_def split: if_splits)
      then have lp: "length P = length segs" and tk: "take 4 segs = segs" using lP by simp_all
      have lpos: "length segs - 1 < length segs" using ne by (cases segs) auto
      have "P ! (length P - 1) = ipv4_clean_segment (segs ! (length segs - 1))"
        using lpos by (simp add: P_def tk)
      with e ls have "ipv4_extra segs"
        by (simp add: ipv4_extra_def lp Let_def ipv4_clean_segment_idem)
      with False show False by simp
    qed
    then show ?thesis unfolding out t4 using cleanP by simp
  qed
  have "ipv4_format (js_join (CHR ''.'') out)
        = js_join (CHR ''.'') (map ipv4_clean_segment (take 4 out)
             @ (if ipv4_extra out then [[]] else []))"
    using neo dout by (rule ipv4_format_joined)
  also have "\<dots> = js_join (CHR ''.'') out" by (simp only: step)
  finally show ?thesis by (simp only: f)
qed

lemma octet_text_clean: "octet_text s \<Longrightarrow> ipv4_clean_segment s = s"
proof -
  assume o: "octet_text s"
  then have "s \<noteq> []" "\<forall>c\<in>set s. is_digit_class c"
    by (auto simp: octet_text_def list_all_iff)
  then have "parseInt10 s = Some (dec_value s)" by (rule parseInt10_digits)
  with o show ?thesis by (intro parseInt10_le3) (auto simp: octet_text_def)
qed

lemma ipv4_validate_fixed: "ipv4_validate v \<Longrightarrow> ipv4_format v = v"
proof -
  assume "ipv4_validate v"
  then have dq: "dotted_quad octet_text v" by (simp add: ipv4_validate_dotted_quad)
  define ss where "ss = js_split (CHR ''.'') v"
  from dq have len: "length ss = 4" and al: "\<forall>s\<in>set ss. octet_text s"
    by (simp_all add: dotted_quad_def list_all_iff ss_def)
  have v: "js_join (CHR ''.'') ss = v" unfolding ss_def by (rule js_join_split)
  have dg: "\<forall>s\<in>set ss. \<forall>c\<in>set s. is_digit_class c"
    using al by (auto simp: octet_text_def list_all_iff)
  have ne: "ss \<noteq> []" using len by auto
  have cl: "map ipv4_clean_segment (take 4 ss) = ss"
    using al len by (simp add: map_idI octet_text_clean)
  have ex: "\<not> ipv4_extra ss" using len by (simp add: ipv4_extra_def)
  have "ipv4_format (js_join (CHR ''.'') ss)
        = js_join (CHR ''.'') (map ipv4_clean_segment (take 4 ss)
             @ (if ipv4_extra ss then [[]] else []))"
    using ne dg by (rule ipv4_format_joined)
  also have "\<dots> = js_join (CHR ''.'') ss" using ex by (simp only: cl) simp
  finally show ?thesis by (simp only: v)
qed

section \<open>MAC validation\<close>

lemma lang_hex_pair: "p \<in> lang (rx_rep 2 2 rx_hex) \<Longrightarrow> hex_pair p"
proof -
  assume "p \<in> lang (rx_rep 2 2 rx_hex)"
  then have "p \<in> lang (Cat (Cat rx_hex (Cat rx_hex Eps)) Eps)"
    by (simp add: rx_rep_def numeral_2_eq_2)
  then obtain q e where p: "p = q @ e" and q: "q \<in> lang (Cat rx_hex (Cat rx_hex Eps))"
    and e: "e \<in> lang Eps" by (rule lang_CatE)
  from q obtain a r where q': "q = a @ r" and a: "a \<in> lang rx_hex"
    and r: "r \<in> lang (Cat rx_hex Eps)" by (rule lang_CatE)
  from r obtain b e' where r': "r = b @ e'" and b: "b \<in> lang rx_hex" and e': "e' \<in> lang Eps"
    by (rule lang_CatE)
  from a b obtain x y where "a = [x]" "is_hex_class x" "b = [y]" "is_hex_class y"
    by (auto simp: rx_hex_def is_hex_class_def)
  with p q' r' e e' show ?thesis by (simp add: hex_pair_def)
qed

lemma lang_mac_group:
  "p \<in> lang (Cat (rx_rep 2 2 rx_hex) rx_colon) \<Longrightarrow> \<exists>s. hex_pair s \<and> p = s @ '':''"
proof -
  assume "p \<in> lang (Cat (rx_rep 2 2 rx_hex) rx_colon)"
  then obtain s c where "p = s @ c" "s \<in> lang (rx_rep 2 2 rx_hex)" "c \<in> lang rx_colon"
    by (rule lang_CatE)
  then show ?thesis using lang_hex_pair [of s] by (auto simp: lang_rx_colon)
qed

lemma lang_mac_groups:
  "p \<in> lang (rx_times n (Cat (rx_rep 2 2 rx_hex) rx_colon)) \<Longrightarrow> hex_pair seg \<Longrightarrow>
   \<exists>ss. p @ seg = js_join (CHR '':'') ss \<and> length ss = Suc n \<and> (\<forall>s\<in>set ss. hex_pair s)"
proof (induction n arbitrary: p)
  case 0
  then have "p @ seg = js_join (CHR '':'') [seg]" by simp
  with 0 show ?case by (intro exI [of _ "[seg]"]) simp
next
  case (Suc n)
  from Suc.prems(1) obtain g p' where p: "p = g @ p'"
    and g: "g \<in> lang (Cat (rx_rep 2 2 rx_hex) rx_colon)"
    and p': "p' \<in> lang (rx_times n (Cat (rx_rep 2 2 rx_hex) rx_colon))"
    unfolding rx_times.simps by (rule lang_CatE)
  from g obtain s where s: "hex_pair s" "g = s @ '':''" using lang_mac_group by blast
  from Suc.IH [OF p' Suc.prems(2)] obtain ss where ss: "p' @ seg = js_join (CHR '':'') ss"
    "length ss = Suc n" "\<forall>s\<in>set ss. hex_pair s" by blast
  from ss(2) have ne: "ss \<noteq> []" by auto
  have "p @ seg = js_join (CHR '':'') (s # ss)"
    using ne by (simp add: p s(2) ss(1) js_join_Cons)
  then show ?case using ss(2,3) s(1) by (intro exI [of _ "s # ss"]) simp
qed

lemma lang_macRegex:
  assumes "v \<in> lang macRegex"
  shows "\<exists>ss. v = js_join (CHR '':'') ss \<and> length ss = 6 \<and> (\<forall>s\<in>set ss. hex_pair s)"
proof -
  from assms obtain p seg where v: "v = p @ seg"
    and p: "p \<in> lang (rx_rep 5 5 (Cat (rx_rep 2 2 rx_hex) rx_colon))"
    and seg: "seg \<in> lang (rx_rep 2 2 rx_hex)"
    unfolding macRegex_def by (rule lang_CatE)
  from p have "p \<in> lang (Cat (rx_times 5 (Cat (rx_rep 2 2 rx_hex) rx_colon)) Eps)"
    by (simp add: rx_rep_def [of 5 5])
  then obtain q e where "p = q @ e" "q \<in> lang (rx_times 5 (Cat (rx_rep 2 2 rx_hex) rx_colon))"
    "e \<in> lang Eps" by (rule lang_CatE)
  then have q: "p \<in> lang (rx_times 5 (Cat (rx_rep 2 2 rx_hex) rx_colon))" by simp
  from seg have "hex_pair seg" by (rule lang_hex_pair)
  with q show ?thesis unfolding v using lang_mac_groups [of p 5 seg] by simp
qed

lemma mac_validate_fixed: "mac_validate v \<Longrightarrow> mac_format v = v"
proof -
  assume "mac_validate v"
  then obtain ss where v: "v = js_join (CHR '':'') ss" and len: "length ss = 6"
    and hp: "\<forall>s\<in>set ss. hex_pair s"
    using lang_macRegex [of v] by (auto simp: mac_validate_def rx_test_lang)
  have "mac_format (js_join (CHR '':'') ss) = js_join (CHR '':'') ss"
    using len hp by (intro mac_format_fixed) (auto simp: hex_pair_def)
  then show ?thesis by (simp only: v)
qed

section \<open>Idempotence of format\<close>

text \<open>
  Claim C1. For each of the three handlers (IPv4, IPv6, MAC) and every string \<open>x\<close>,
  \<open>format(format(x)) = format(x)\<close>: the output of \<open>format\<close> is a fixed point of \<open>format\<close>.
\<close>

theorem format_idempotent:
  "ipv4_format (ipv4_format x) = ipv4_format x
   \<and> ipv6_format (ipv6_format x) = ipv6_format x
   \<and> mac_format (mac_format x) = mac_format x"
  by (simp only: ipv4_format_idem ipv6_format_idem mac_format_idem)

theorem format_idempotent_witness:
  "ipv4_format (ipv4_format ''1.2.300x'') = ''1.2.255.''
   \<and> ipv6_format (ipv6_format ''1::::2x'') = ''1::2''
   \<and> mac_format (mac_format ''001a2'') = ''00:1a:2''"
proof -
  have "ipv4_format ''1.2.300x'' = ''1.2.255.''" "ipv6_format ''1::::2x'' = ''1::2''"
    "mac_format ''001a2'' = ''00:1a:2''"
    by code_simp+
  then show ?thesis
    using format_idempotent [of "''1.2.300x''"] format_idempotent [of "''1::::2x''"]
      format_idempotent [of "''001a2''"]
    by simp
qed

section \<open>Format is the identity on valid addresses\<close>

text \<open>
  Claim C9. For each of the three handlers and every string \<open>v\<close>, if \<open>validate(v)\<close> is
  true then \<open>format(v) = v\<close>: reformatting a complete valid address never changes it.
\<close>

theorem validate_format_identity:
  "(ipv4_validate v \<longrightarrow> ipv4_format v = v)
   \<and> (ipv6_validate v \<longrightarrow> ipv6_format v = v)
   \<and> (mac_validate v \<longrightarrow> mac_format v = v)"
  using ipv4_validate_fixed [of v] ipv6_validate_fixed [of v] mac_validate_fixed [of v]
  by blast

theorem validate_format_identity_witness:
  "ipv4_validate ''192.168.1.1'' \<and> ipv4_format ''192.168.1.1'' = ''192.168.1.1''
   \<and> ipv6_validate ''2001:db8::1'' \<and> ipv6_format ''2001:db8::1'' = ''2001:db8::1''
   \<and> mac_validate ''00:1A:2B:3C:4D:5E'' \<and> mac_format ''00:1A:2B:3C:4D:5E'' = ''00:1A:2B:3C:4D:5E''"
proof -
  have v: "ipv4_validate ''192.168.1.1''" "ipv6_validate ''2001:db8::1''"
    "mac_validate ''00:1A:2B:3C:4D:5E''"
    by code_simp+
  then show ?thesis
    using validate_format_identity [of "''192.168.1.1''"]
      validate_format_identity [of "''2001:db8::1''"]
      validate_format_identity [of "''00:1A:2B:3C:4D:5E''"]
    by simp
qed

section \<open>Format keeps the order of the characters\<close>

lemma subseq_trans: "subseq xs ys \<Longrightarrow> subseq ys zs \<Longrightarrow> subseq xs zs"
  by (rule list_emb_trans) auto

lemma subseq_take_self: "subseq (take n xs) xs"
  by (rule prefix_imp_subseq) (rule take_is_prefix)

lemma subseq_concat_map:
  "\<forall>s\<in>set xs. subseq (f s) s \<Longrightarrow> subseq (concat (map f xs)) (concat xs)"
  by (induction xs) (auto intro: list_emb_append_mono)

lemma subseq_concat_take: "subseq (concat (take n xs)) (concat xs)"
proof -
  have "concat xs = concat (take n xs) @ concat (drop n xs)"
    by (metis append_take_drop_id concat_append)
  then show ?thesis by (simp add: subseq_rev_drop_many)
qed

lemma subseq_concat_split: "subseq (concat (js_split d s)) v" if "subseq s v"
proof -
  have "subseq (concat (js_split d s)) s" by (simp add: concat_js_split)
  then show ?thesis using that by (rule subseq_trans)
qed

lemma ipv6_format_subseq: "subseq (filter (\<lambda>c. c \<noteq> CHR '':'') (ipv6_format x)) x"
proof -
  have e: "filter (\<lambda>c. c \<noteq> CHR '':'') (ipv6_format x)
        = filter (\<lambda>c. c \<noteq> CHR '':'') (filter is_hex_colon_class x)"
    by (simp only: ipv6_format_def collapse_colons_others)
  have "subseq (filter (\<lambda>c. c \<noteq> CHR '':'') (filter is_hex_colon_class x))
          (filter is_hex_colon_class x)"
    by (rule subseq_filter_left)
  moreover have "subseq (filter is_hex_colon_class x) x" by (rule subseq_filter_left)
  ultimately show ?thesis unfolding e by (rule subseq_trans)
qed

lemma mac_format_subseq: "subseq (filter (\<lambda>c. c \<noteq> CHR '':'') (mac_format x)) x"
proof -
  define cleaned where "cleaned = filter is_hex_colon_class x"
  define segs where "segs = js_split (CHR '':'') cleaned"
  define raw where "raw = map (filter is_hex_class) (take 6 segs)"
  define h where "h = js_slice (filter is_hex_class x) 0 12"
  have cx: "subseq cleaned x" unfolding cleaned_def by (rule subseq_filter_left)
  show ?thesis
  proof (cases "CHR '':'' \<in> set cleaned \<and> list_all (\<lambda>seg. length seg \<le> 2) raw")
    case True
    let ?f = "\<lambda>s. filter (\<lambda>c. c \<noteq> CHR '':'') (js_slice (filter is_hex_class s) 0 2)"
    have mf: "mac_format x = js_join (CHR '':'') (map (\<lambda>seg. js_slice seg 0 2) raw)"
      using True by (simp add: mac_format_def cleaned_def segs_def raw_def)
    have e: "filter (\<lambda>c. c \<noteq> CHR '':'') (mac_format x) = concat (map ?f (take 6 segs))"
      by (simp add: mf filter_js_join raw_def comp_def)
    have each: "\<forall>s\<in>set (take 6 segs). subseq (?f s) s"
    proof
      fix s
      have "subseq (?f s) (js_slice (filter is_hex_class s) 0 2)" by (rule subseq_filter_left)
      moreover have "subseq (js_slice (filter is_hex_class s) 0 2) (filter is_hex_class s)"
        using js_slice_0_nat [of "filter is_hex_class s" 2] subseq_take_self by simp
      moreover have "subseq (filter is_hex_class s) s" by (rule subseq_filter_left)
      ultimately show "subseq (?f s) s" by (blast intro: subseq_trans)
    qed
    have "subseq (concat (map ?f (take 6 segs))) (concat (take 6 segs))"
      using each by (rule subseq_concat_map)
    moreover have "subseq (concat (take 6 segs)) (concat segs)" by (rule subseq_concat_take)
    moreover have "subseq (concat segs) x"
      unfolding segs_def using cx by (rule subseq_concat_split)
    ultimately show ?thesis unfolding e by (blast intro: subseq_trans)
  next
    case False
    have mf: "mac_format x = js_join (CHR '':'') (mac_pairs_loop h 0 [])"
      using False by (auto simp: mac_format_def cleaned_def segs_def raw_def h_def Let_def)
    have e: "filter (\<lambda>c. c \<noteq> CHR '':'') (mac_format x)
             = concat (map (filter (\<lambda>c. c \<noteq> CHR '':'')) (mac_pairs_loop h 0 []))"
      by (simp add: mf filter_js_join)
    have "subseq (concat (map (filter (\<lambda>c. c \<noteq> CHR '':'')) (mac_pairs_loop h 0 [])))
            (concat (mac_pairs_loop h 0 []))"
      by (rule subseq_concat_map) simp
    moreover have "concat (mac_pairs_loop h 0 []) = h" by (simp add: mac_pairs_loop_concat)
    moreover have "subseq h (filter is_hex_class x)"
      unfolding h_def using js_slice_0_nat [of "filter is_hex_class x" 12] subseq_take_self
      by simp
    moreover have "subseq (filter is_hex_class x) x" by (rule subseq_filter_left)
    ultimately show ?thesis unfolding e by (metis subseq_trans)
  qed
qed

lemma ipv4_truncate: "(if 3 < length s then js_slice s 0 3 else s) = take 3 s"
  by (simp add: js_slice_0)

lemma ipv4_clean_segment_no_clamp:
  "parseInt10 (take 3 s) = None \<or> (\<exists>n. parseInt10 (take 3 s) = Some n \<and> n \<le> 255)
   \<Longrightarrow> ipv4_clean_segment s = take 3 s"
  unfolding ipv4_clean_segment_def ipv4_truncate Let_def
  by (auto split: option.splits)

lemma ipv4_format_segments:
  fixes x :: string
  defines "segs \<equiv> js_split (CHR ''.'') (filter is_digit_dot_class x)"
  shows "js_split (CHR ''.'') (ipv4_format x)
         = map ipv4_clean_segment (take 4 segs) @ (if ipv4_extra segs then [[]] else [])"
proof -
  define out where "out = map ipv4_clean_segment (take 4 segs) @ (if ipv4_extra segs then [[]] else [])"
  have ne: "segs \<noteq> []" by (simp add: segs_def)
  have f: "ipv4_format x = js_join (CHR ''.'') out"
    using ne by (simp add: ipv4_format_def ipv4_format_loop_all segs_def out_def)
  have "\<forall>s\<in>set segs. \<forall>c\<in>set s. is_digit_class c"
    unfolding segs_def using ipv4_segments_digits [of _ x] by blast
  then have "\<forall>s\<in>set (take 4 segs). \<forall>c\<in>set s. is_digit_class c"
    by (meson in_set_takeD)
  then have "\<forall>s\<in>set (map ipv4_clean_segment (take 4 segs)). \<forall>c\<in>set s. is_digit_class c"
    using ipv4_clean_segment_digits by auto
  then have "\<forall>s\<in>set out. \<forall>c\<in>set s. is_digit_class c"
    by (auto simp: out_def)
  then have nd: "\<forall>s\<in>set out. CHR ''.'' \<notin> set s" using dot_not_digit by auto
  have "out \<noteq> []" using ne by (simp add: out_def)
  then have "js_split (CHR ''.'') (js_join (CHR ''.'') out) = out" using nd by (rule js_split_join)
  then show ?thesis by (simp only: f out_def)
qed

lemma ipv4_format_subseq:
  assumes "\<not> ipv4_clamps x"
  shows "subseq (filter (\<lambda>c. c \<noteq> CHR ''.'') (ipv4_format x)) x"
proof -
  define cleaned where "cleaned = filter is_digit_dot_class x"
  define segs where "segs = js_split (CHR ''.'') cleaned"
  let ?f = "\<lambda>s. filter (\<lambda>c. c \<noteq> CHR ''.'') (ipv4_clean_segment s)"
  have ne: "segs \<noteq> []" by (simp add: segs_def)
  have f: "ipv4_format x = js_join (CHR ''.'')
             (map ipv4_clean_segment (take 4 segs) @ (if ipv4_extra segs then [[]] else []))"
    using ne by (simp add: ipv4_format_def ipv4_format_loop_all segs_def cleaned_def)
  have e: "filter (\<lambda>c. c \<noteq> CHR ''.'') (ipv4_format x) = concat (map ?f (take 4 segs))"
    by (simp add: f filter_js_join comp_def)
  have each: "\<forall>s\<in>set (take 4 segs). subseq (?f s) s"
  proof
    fix s
    assume "s \<in> set (take 4 segs)"
    with assms have "\<not> (case parseInt10 (take 3 s) of None \<Rightarrow> False | Some n \<Rightarrow> n > 255)"
      by (auto simp: ipv4_clamps_def list_ex_iff segs_def cleaned_def)
    then have "ipv4_clean_segment s = take 3 s"
      by (intro ipv4_clean_segment_no_clamp) (auto split: option.splits)
    then have "?f s = filter (\<lambda>c. c \<noteq> CHR ''.'') (take 3 s)" by simp
    moreover have "subseq (filter (\<lambda>c. c \<noteq> CHR ''.'') (take 3 s)) (take 3 s)"
      by (rule subseq_filter_left)
    moreover have "subseq (take 3 s) s" by (rule subseq_take_self)
    ultimately show "subseq (?f s) s" by (metis subseq_trans)
  qed
  have cx: "subseq cleaned x" unfolding cleaned_def by (rule subseq_filter_left)
  have "subseq (concat (map ?f (take 4 segs))) (concat (take 4 segs))"
    using each by (rule subseq_concat_map)
  moreover have "subseq (concat (take 4 segs)) (concat segs)" by (rule subseq_concat_take)
  moreover have "subseq (concat segs) x"
    unfolding segs_def using cx by (rule subseq_concat_split)
  ultimately show ?thesis unfolding e by (blast intro: subseq_trans)
qed

lemma ipv4_clean_segment_reads:
  assumes "\<forall>c\<in>set s. is_digit_class c"
  shows "ipv4_clean_segment s = (if 255 < dec_value (take 3 s) then ''255'' else take 3 s)"
proof (cases "take 3 s = []")
  case True
  then show ?thesis
    unfolding ipv4_clean_segment_def ipv4_truncate Let_def
    by (simp add: parseInt10_Nil dec_value_def)
next
  case False
  have "\<forall>c\<in>set (take 3 s). is_digit_class c" using assms by (meson in_set_takeD)
  with False have "parseInt10 (take 3 s) = Some (dec_value (take 3 s))"
    by (rule parseInt10_digits)
  then show ?thesis
    unfolding ipv4_clean_segment_def ipv4_truncate Let_def by simp
qed

text \<open>
  Claim C3, as amended. For IPv6 and MAC, and for IPv4 whenever no segment is clamped,
  the output of \<open>format\<close> with its delimiters removed is a subsequence of the input:
  every non-delimiter output character is an input character, in the original order.
  For IPv4 in general, the output splits at dots into the first four segments of the
  cleaned input, each cut to its first three characters and replaced by the literal
  \<open>255\<close> exactly when those characters read more than 255, followed by one empty
  segment when the automatic dot applies. The claim as written fails for a clamped
  segment: \<open>999\<close> is formatted to \<open>255.\<close>, whose digits are not characters of the input.
\<close>

theorem format_keeps_order:
  "subseq (filter (\<lambda>c. c \<noteq> CHR '':'') (ipv6_format x)) x
   \<and> subseq (filter (\<lambda>c. c \<noteq> CHR '':'') (mac_format x)) x
   \<and> (\<not> ipv4_clamps x \<longrightarrow> subseq (filter (\<lambda>c. c \<noteq> CHR ''.'') (ipv4_format x)) x)
   \<and> js_split (CHR ''.'') (ipv4_format x)
       = map (\<lambda>seg. if 255 < dec_value (take 3 seg) then ''255'' else take 3 seg)
           (take 4 (js_split (CHR ''.'') (filter is_digit_dot_class x)))
         @ (if ipv4_extra (js_split (CHR ''.'') (filter is_digit_dot_class x)) then [[]] else [])"
proof -
  let ?segs = "js_split (CHR ''.'') (filter is_digit_dot_class x)"
  have "\<forall>s\<in>set (take 4 ?segs). \<forall>c\<in>set s. is_digit_class c"
    using ipv4_segments_digits [of _ x] by (meson in_set_takeD)
  then have "map ipv4_clean_segment (take 4 ?segs)
        = map (\<lambda>seg. if 255 < dec_value (take 3 seg) then ''255'' else take 3 seg) (take 4 ?segs)"
    by (intro map_cong refl ipv4_clean_segment_reads) blast
  then have "js_split (CHR ''.'') (ipv4_format x)
       = map (\<lambda>seg. if 255 < dec_value (take 3 seg) then ''255'' else take 3 seg) (take 4 ?segs)
         @ (if ipv4_extra ?segs then [[]] else [])"
    by (simp only: ipv4_format_segments)
  then show ?thesis
    using ipv6_format_subseq [of x] mac_format_subseq [of x] ipv4_format_subseq [of x]
    by blast
qed

theorem format_keeps_order_witness:
  "\<not> ipv4_clamps ''1a2.2345''
   \<and> subseq (filter (\<lambda>c. c \<noteq> CHR ''.'') (ipv4_format ''1a2.2345'')) ''1a2.2345''
   \<and> ipv4_format ''1a2.2345'' = ''12.234.''
   \<and> js_split (CHR ''.'') (ipv4_format ''999.12'') = [''255'', ''12'']"
proof -
  have "\<not> ipv4_clamps ''1a2.2345''" "ipv4_format ''1a2.2345'' = ''12.234.''"
    by code_simp+
  moreover have "map (\<lambda>seg. if 255 < dec_value (take 3 seg) then ''255'' else take 3 seg)
           (take 4 (js_split (CHR ''.'') (filter is_digit_dot_class ''999.12'')))
         @ (if ipv4_extra (js_split (CHR ''.'') (filter is_digit_dot_class ''999.12'')) then [[]] else [])
        = [''255'', ''12'']"
    by code_simp
  ultimately show ?thesis
    using format_keeps_order [of "''1a2.2345''"] format_keeps_order [of "''999.12''"] by simp
qed

theorem format_clamp_counterexample:
  "ipv4_format ''999'' = ''255.''
   \<and> \<not> subseq (filter (\<lambda>c. c \<noteq> CHR ''.'') (ipv4_format ''999'')) ''999''
   \<and> CHR ''2'' \<in> set (ipv4_format ''999'') \<and> CHR ''2'' \<notin> set ''999''"
  by code_simp

end
